theory Spec2Isabelle
  imports Complex_Main "HOL-Library.Word"
begin

section \<open>Common types\<close>

text \<open>
  Embedding of \<^verbatim>\<open>client/ed2/stream2zmq.py\<close>.  Python values are modelled as follows:
  a \<^verbatim>\<open>bytes\<close> object is a list of 8-bit words, a \<^verbatim>\<open>str\<close> is the list of its Unicode code
  points, exceptions are values of \<open>exn\<close>.
\<close>

type_synonym byte = "8 word"
type_synonym bytes = "byte list"
type_synonym pystr = "nat list"

datatype exn =
    ZMQError int
  | StopIteration
  | AttributeError
  | ValueError
  | UnicodeDecodeError
  | OtherError string

text \<open>\<^verbatim>\<open>zmq.EAGAIN\<close> is the platform's \<^verbatim>\<open>errno.EAGAIN\<close>; the Linux value is used.  No
  result below depends on the number.\<close>

definition EAGAIN :: int where
  "EAGAIN = 11"

section \<open>The stream relay orchestrator: class Stream2Zmq\<close>

subsection \<open>Collaborators\<close>

text \<open>
  A layer object of the protocol stack, as far as \<^verbatim>\<open>Stream2Zmq\<close> looks at it: whether it is an
  instance of \<^verbatim>\<open>protocol.TerminalLayer\<close>, and its attribute \<^verbatim>\<open>fdout\<close>, which is either what
  the stack builder left there or the bound method \<^verbatim>\<open>self.stdout\<close> of the orchestrator.
\<close>

datatype fdout = BuilderDefault | SelfStdout

record layer =
  lname :: string
  isTerminalLayer :: bool
  fdout :: fdout

text \<open>
  The modules \<^verbatim>\<open>protocol\<close>, \<^verbatim>\<open>zmq_server\<close>, \<^verbatim>\<open>zmq\<close>, \<^verbatim>\<open>time\<close>, \<^verbatim>\<open>logging\<close> and \<^verbatim>\<open>sys\<close> are
  collaborators of the class.  Each call into them is recorded as an event, in program order, and
  what the call returns is read from an environment \<open>env\<close>:
  \<^item> \<open>buildStack\<close> is \<^verbatim>\<open>protocol.buildStack\<close>: it returns the layers in iteration order or raises;
  \<^item> \<open>ep_isWaiting\<close>, \<open>ep_lastActivity\<close>, \<open>ep_poll\<close>, \<open>ep_registerStream\<close> are what the methods
    of the transport endpoint (the first layer of the stack) return;
  \<^item> \<open>time_time\<close> is what \<^verbatim>\<open>time.time()\<close> returns;
  \<^item> \<open>sys_stdout\<close> identifies the object that \<^verbatim>\<open>sys.stdout\<close> is bound to at the time of the call.
  Time values have a type \<open>'t\<close> with \<open>+\<close>, \<open>-\<close>, \<open>0\<close> and a linear order; no algebraic law is
  assumed about them.
\<close>

record ('t, 'r) env =
  buildStack :: "string \<Rightarrow> exn + layer list"
  ep_isWaiting :: bool
  ep_lastActivity :: 't
  ep_poll :: "'t option \<Rightarrow> 'r"
  ep_registerStream :: "nat \<Rightarrow> bool \<Rightarrow> 'r"
  time_time :: 't
  sys_stdout :: nat

datatype debug_msg = MsgPoll | MsgEncode bytes | MsgDecode bytes

datatype 't event =
    LoggerDebug debug_msg
  | SetInfiniteStdout
  | BuildStack string
  | Wrap
  | StackTimeout
  | ZmqIsWaiting
  | ZmqLastActivity
  | TimeTime
  | ZmqPoll "'t option"
  | ZmqRegisterStream nat bool
  | ZmqClose
  | SuperEncode bytes
  | SuperDecode bytes
  | SysStdoutWrite nat pystr
  | SocketRecv
  | HandlerCall bytes

subsection \<open>Object state and the shape of a method\<close>

text \<open>The attributes \<^verbatim>\<open>_stack_def\<close>, \<^verbatim>\<open>_timeout_s\<close>, \<^verbatim>\<open>_stack\<close> and \<^verbatim>\<open>_zmq\<close>; a leading
  underscore is written \<open>u_\<close>.\<close>

record 't stream2zmq =
  u_stack_def :: string
  u_timeout_s :: 't
  u_stack :: "layer list"
  u_zmq :: "layer option"

text \<open>A method takes the object and returns the events it caused, the object afterwards, and
  either the exception it raised (\<open>Inl\<close>) or its return value (\<open>Inr\<close>).\<close>

type_synonym ('t, 'a) meth = "'t stream2zmq \<Rightarrow> 't event list \<times> 't stream2zmq \<times> (exn + 'a)"

definition ret :: "'a \<Rightarrow> ('t, 'a) meth" where
  "ret x = (\<lambda>s. ([], s, Inr x))"

definition raise :: "exn \<Rightarrow> ('t, 'a) meth" where
  "raise x = (\<lambda>s. ([], s, Inl x))"

definition emit :: "'t event \<Rightarrow> ('t, unit) meth" where
  "emit ev = (\<lambda>s. ([ev], s, Inr ()))"

definition getself :: "('t, 't stream2zmq) meth" where
  "getself = (\<lambda>s. ([], s, Inr s))"

definition setself :: "('t stream2zmq \<Rightarrow> 't stream2zmq) \<Rightarrow> ('t, unit) meth" where
  "setself g = (\<lambda>s. ([], g s, Inr ()))"

text \<open>Sequencing: an exception of the first part ends the method.\<close>

definition bnd :: "('t, 'a) meth \<Rightarrow> ('a \<Rightarrow> ('t, 'b) meth) \<Rightarrow> ('t, 'b) meth" where
  "bnd m f = (\<lambda>s. case m s of
      (ev, s', Inl x) \<Rightarrow> (ev, s', Inl x)
    | (ev, s', Inr a) \<Rightarrow> (case f a s' of (ev', s'', r) \<Rightarrow> (ev @ ev', s'', r)))"

subsection \<open>The methods\<close>

text \<open>The property \<^verbatim>\<open>zmq\<close>: the cached first layer, taken from the stack when the cache is
  empty.  \<^verbatim>\<open>next(iter(...))\<close> on an empty stack raises \<^verbatim>\<open>StopIteration\<close>.\<close>

definition zmq :: "('t, layer) meth" where
  "zmq = (\<lambda>s. case u_zmq s of
      None \<Rightarrow> (case u_stack s of
          [] \<Rightarrow> ([], s, Inl StopIteration)
        | l # _ \<Rightarrow> ([], s\<lparr>u_zmq := Some l\<rparr>, Inr l))
    | Some l \<Rightarrow> ([], s, Inr l))"

definition install_fdout :: "layer \<Rightarrow> layer" where
  "install_fdout l = (if isTerminalLayer l then l\<lparr>fdout := SelfStdout\<rparr> else l)"

definition reset :: "('t, 'r) env \<Rightarrow> ('t, unit) meth" where
  "reset e =
     bnd getself (\<lambda>s.
     bnd (emit (BuildStack (u_stack_def s))) (\<lambda>_.
     bnd (case buildStack e (u_stack_def s) of Inl x \<Rightarrow> raise x | Inr ls \<Rightarrow> ret ls) (\<lambda>ls.
     bnd (setself (\<lambda>s. s\<lparr>u_stack := ls\<rparr>)) (\<lambda>_.
     bnd (setself (\<lambda>s. s\<lparr>u_stack := map install_fdout (u_stack s)\<rparr>)) (\<lambda>_.
     bnd (emit Wrap) (\<lambda>_.
     setself (\<lambda>s. s\<lparr>u_zmq := None\<rparr>)))))))"

text \<open>The constructor; \<open>port\<close> is the text that the f-string puts for the port.\<close>

definition init ::
  "('t, 'r) env \<Rightarrow> string \<Rightarrow> string \<Rightarrow> string \<Rightarrow> 't \<Rightarrow> 't event list \<times> 't stream2zmq \<times> (exn + unit)" where
  "init e stack_arg listen port timeout_s =
     bnd (emit SetInfiniteStdout) (\<lambda>_. reset e)
       \<lparr>u_stack_def = ''zmq='' @ listen @ '':'' @ port @ '','' @ stack_arg,
        u_timeout_s = timeout_s, u_stack = [], u_zmq = None\<rparr>"

definition encode :: "bytes \<Rightarrow> ('t, unit) meth" where
  "encode data = bnd (emit (LoggerDebug (MsgEncode data))) (\<lambda>_. emit (SuperEncode data))"

definition decode :: "bytes \<Rightarrow> ('t, unit) meth" where
  "decode data = bnd (emit (LoggerDebug (MsgDecode data))) (\<lambda>_. emit (SuperDecode data))"

definition timeout :: "('t, unit) meth" where
  "timeout = emit StackTimeout"

definition isWaiting :: "('t, 'r) env \<Rightarrow> ('t, bool) meth" where
  "isWaiting e = bnd zmq (\<lambda>_. bnd (emit ZmqIsWaiting) (\<lambda>_. ret (ep_isWaiting e)))"

definition poll ::
  "('t :: {plus, minus, zero, linorder}, 'r) env \<Rightarrow> 't option \<Rightarrow> ('t, 'r) meth" where
  "poll e timeout_s =
     bnd (emit (LoggerDebug MsgPoll)) (\<lambda>_.
     bnd (isWaiting e) (\<lambda>w.
     bnd (if w then
            bnd getself (\<lambda>s.
            let t = (case timeout_s of None \<Rightarrow> u_timeout_s s | Some t \<Rightarrow> t) in
            bnd zmq (\<lambda>_.
            bnd (emit ZmqLastActivity) (\<lambda>_.
            bnd (emit TimeTime) (\<lambda>_.
            let remaining = ep_lastActivity e + u_timeout_s s - time_time e in
            if remaining \<le> 0 then bnd timeout (\<lambda>_. ret (Some t))
            else ret (Some (min t remaining))))))
          else ret timeout_s) (\<lambda>t'.
     bnd zmq (\<lambda>_.
     bnd (emit (ZmqPoll t')) (\<lambda>_.
     ret (ep_poll e t'))))))"

definition registerStream :: "('t, 'r) env \<Rightarrow> nat \<Rightarrow> bool \<Rightarrow> ('t, 'r) meth" where
  "registerStream e stream f =
     bnd zmq (\<lambda>_. bnd (emit (ZmqRegisterStream stream f)) (\<lambda>_. ret (ep_registerStream e stream f)))"

definition close :: "('t, unit) meth" where
  "close = bnd zmq (\<lambda>_. emit ZmqClose)"

subsection \<open>stdout: decoding with errors="replace"\<close>

text \<open>
  \<^verbatim>\<open>data.decode(errors="replace")\<close> is the built-in UTF-8 decoder.  It is modelled after
  CPython: a byte below \<open>0x80\<close> is its own code point; \<open>0xC2..0xDF\<close>, \<open>0xE0..0xEF\<close> and
  \<open>0xF0..0xF4\<close> start a sequence of two, three and four bytes, with the usual restrictions on
  the second byte (no overlong forms, no surrogates, nothing above \<open>U+10FFFF\<close>); any other byte
  is an invalid start byte.  At an invalid or truncated sequence the error handler is called for
  the bytes of the sequence that were valid so far (at least one): \<^verbatim>\<open>strict\<close> raises
  \<^verbatim>\<open>UnicodeDecodeError\<close>, \<^verbatim>\<open>replace\<close> puts \<open>U+FFFD\<close> and decoding goes on behind these bytes.
\<close>

datatype errors = Strict | Replace

definition is_cont :: "byte \<Rightarrow> bool" where
  "is_cont b \<longleftrightarrow> 0x80 \<le> b \<and> b \<le> 0xBF"

definition second_ok3 :: "byte \<Rightarrow> byte \<Rightarrow> bool" where
  "second_ok3 b0 b1 \<longleftrightarrow> is_cont b1 \<and> \<not> (if b1 < 0xA0 then b0 = 0xE0 else b0 = 0xED)"

definition second_ok4 :: "byte \<Rightarrow> byte \<Rightarrow> bool" where
  "second_ok4 b0 b1 \<longleftrightarrow> is_cont b1 \<and> \<not> (if b1 < 0x90 then b0 = 0xF0 else b0 = 0xF4)"

definition good :: "nat \<Rightarrow> exn + pystr \<Rightarrow> exn + pystr" where
  "good cp rest = (case rest of Inl x \<Rightarrow> Inl x | Inr t \<Rightarrow> Inr (cp # t))"

definition bad :: "errors \<Rightarrow> exn + pystr \<Rightarrow> exn + pystr" where
  "bad m rest = (case m of Strict \<Rightarrow> Inl UnicodeDecodeError | Replace \<Rightarrow> good 0xFFFD rest)"

definition low6 :: "byte \<Rightarrow> nat" where
  "low6 b = unat b - 0x80"

fun utf8_decode :: "errors \<Rightarrow> bytes \<Rightarrow> exn + pystr" where
  "utf8_decode m [] = Inr []"
| "utf8_decode m (b0 # r) =
    (if b0 < 0x80 then good (unat b0) (utf8_decode m r)
     else if b0 < 0xC2 then bad m (utf8_decode m r)
     else if b0 < 0xE0 then
       (case r of
          [] \<Rightarrow> bad m (Inr [])
        | b1 # r1 \<Rightarrow>
            if is_cont b1 then good ((unat b0 - 0xC0) * 64 + low6 b1) (utf8_decode m r1)
            else bad m (utf8_decode m r))
     else if b0 < 0xF0 then
       (case r of
          [] \<Rightarrow> bad m (Inr [])
        | b1 # r1 \<Rightarrow>
            if \<not> second_ok3 b0 b1 then bad m (utf8_decode m r)
            else (case r1 of
                [] \<Rightarrow> bad m (Inr [])
              | b2 # r2 \<Rightarrow>
                  if is_cont b2
                  then good ((unat b0 - 0xE0) * 4096 + low6 b1 * 64 + low6 b2) (utf8_decode m r2)
                  else bad m (utf8_decode m r1)))
     else if b0 < 0xF5 then
       (case r of
          [] \<Rightarrow> bad m (Inr [])
        | b1 # r1 \<Rightarrow>
            if \<not> second_ok4 b0 b1 then bad m (utf8_decode m r)
            else (case r1 of
                [] \<Rightarrow> bad m (Inr [])
              | b2 # r2 \<Rightarrow>
                  if \<not> is_cont b2 then bad m (utf8_decode m r1)
                  else (case r2 of
                      [] \<Rightarrow> bad m (Inr [])
                    | b3 # r3 \<Rightarrow>
                        if is_cont b3
                        then good ((unat b0 - 0xF0) * 262144 + low6 b1 * 4096 + low6 b2 * 64 + low6 b3)
                               (utf8_decode m r3)
                        else bad m (utf8_decode m r2))))
     else bad m (utf8_decode m r))"

definition stdout :: "('t, 'r) env \<Rightarrow> bytes \<Rightarrow> ('t, unit) meth" where
  "stdout e data =
     bnd (case utf8_decode Replace data of Inl x \<Rightarrow> raise x | Inr t \<Rightarrow> ret t) (\<lambda>t.
     emit (SysStdoutWrite (sys_stdout e) t))"

subsection \<open>recvAll\<close>

text \<open>
  The socket is given by what its successive calls \<^verbatim>\<open>recv(flags=zmq.NOBLOCK)\<close> do: return a frame
  or raise.  The handler \<^verbatim>\<open>f\<close> has a state of its own and may raise.  \<open>drain\<close> is the
  \<^verbatim>\<open>while True\<close> loop inside \<^verbatim>\<open>try\<close>: it ends with the exception that left the loop, or with
  \<open>None\<close> when the listed calls are used up and the loop is still running.
\<close>

datatype recv = Frame bytes | RecvRaises exn

type_synonym 'h handler = "bytes \<Rightarrow> 'h \<Rightarrow> exn option \<times> 'h"

fun drain :: "recv list \<Rightarrow> 'h handler \<Rightarrow> 'h \<Rightarrow> 't event list \<times> exn option \<times> 'h" where
  "drain [] f h = ([], None, h)"
| "drain (RecvRaises x # rs) f h = ([SocketRecv], Some x, h)"
| "drain (Frame d # rs) f h =
     (case f d h of
        (Some x, h') \<Rightarrow> ([SocketRecv, HandlerCall d], Some x, h')
      | (None, h') \<Rightarrow>
          (case drain rs f h' of (ev, r, h'') \<Rightarrow> (SocketRecv # HandlerCall d # ev, r, h'')))"

text \<open>The \<^verbatim>\<open>except zmq.ZMQError as e\<close> clause: \<^verbatim>\<open>EAGAIN\<close> is passed over, any other
  \<^verbatim>\<open>ZMQError\<close> is raised again, and an exception of another class is not caught.\<close>

definition except_ZMQError :: "exn \<Rightarrow> exn + unit" where
  "except_ZMQError x =
     (case x of ZMQError errno \<Rightarrow> if errno = EAGAIN then Inr () else Inl x | _ \<Rightarrow> Inl x)"

text \<open>The result is \<open>None\<close> while the loop is still running, \<open>Some (Inr ())\<close> for a normal
  return and \<open>Some (Inl x)\<close> for an exception that reaches the caller.\<close>

definition recvAll ::
  "recv list \<Rightarrow> 'h handler \<Rightarrow> 'h \<Rightarrow> 't event list \<times> (exn + unit) option \<times> 'h" where
  "recvAll socket f h =
     (case drain socket f h of (ev, r, h') \<Rightarrow> (ev, map_option except_ZMQError r, h'))"

text \<open>The handler applied to a list of frames, up to the first call that raises.\<close>

fun handle_frames :: "'h handler \<Rightarrow> bytes list \<Rightarrow> 'h \<Rightarrow> exn option \<times> 'h" where
  "handle_frames f [] h = (None, h)"
| "handle_frames f (d # ds) h =
     (case f d h of (Some x, h') \<Rightarrow> (Some x, h') | (None, h') \<Rightarrow> handle_frames f ds h')"

subsection \<open>Executions\<close>

text \<open>A call of a public operation from outside, and an execution as a list of calls, each
  with the environment it meets.  Return values and exceptions go to the caller and are
  dropped here.  The handler given to \<^verbatim>\<open>recvAll\<close> is a function of the frame.\<close>

datatype 't call =
    CReset
  | CEncode bytes
  | CDecode bytes
  | CTimeout
  | CStdout bytes
  | CIsWaiting
  | CPoll "'t option"
  | CRecvAll "recv list" "bytes \<Rightarrow> exn option"
  | CRegisterStream nat bool
  | CZmq
  | CClose

definition forget :: "('t, 'a) meth \<Rightarrow> 't stream2zmq \<Rightarrow> 't event list \<times> 't stream2zmq" where
  "forget m s = (case m s of (ev, s', _) \<Rightarrow> (ev, s'))"

fun exec ::
  "('t :: {plus, minus, zero, linorder}, 'r) env \<Rightarrow> 't call \<Rightarrow> 't stream2zmq
     \<Rightarrow> 't event list \<times> 't stream2zmq" where
  "exec e CReset s = forget (reset e) s"
| "exec e (CEncode d) s = forget (encode d) s"
| "exec e (CDecode d) s = forget (decode d) s"
| "exec e CTimeout s = forget timeout s"
| "exec e (CStdout d) s = forget (stdout e d) s"
| "exec e CIsWaiting s = forget (isWaiting e) s"
| "exec e (CPoll t) s = forget (poll e t) s"
| "exec e (CRecvAll socket f) s = (fst (recvAll socket (\<lambda>d h. (f d, h)) ()), s)"
| "exec e (CRegisterStream stream f) s = forget (registerStream e stream f) s"
| "exec e CZmq s = forget zmq s"
| "exec e CClose s = forget close s"

fun run ::
  "(('t :: {plus, minus, zero, linorder}, 'r) env \<times> 't call) list \<Rightarrow> 't stream2zmq
     \<Rightarrow> 't event list \<times> 't stream2zmq" where
  "run [] s = ([], s)"
| "run ((e, c) # xs) s =
     (case exec e c s of (ev, s') \<Rightarrow> (case run xs s' of (ev', s'') \<Rightarrow> (ev @ ev', s'')))"

text \<open>The condition of the idle timeout at a call: a \<^verbatim>\<open>poll\<close> that finds the endpoint waiting
  finds \<^verbatim>\<open>remaining\<close> positive.\<close>

definition active :: "'t \<Rightarrow> ('t :: {plus, minus, zero, linorder}, 'r) env \<times> 't call \<Rightarrow> bool" where
  "active conf x =
     (case x of
        (e, CPoll t) \<Rightarrow> \<not> ep_isWaiting e \<or> 0 < ep_lastActivity e + conf - time_time e
      | (e, CTimeout) \<Rightarrow> False
      | _ \<Rightarrow> True)"

section \<open>The output buffer: class InfiniteStdoutBuffer\<close>

subsection \<open>The queue and the events\<close>

text \<open>
  \<^verbatim>\<open>queue.Queue()\<close> without a size bound: the items in FIFO order and the counter
  \<^verbatim>\<open>unfinished_tasks\<close>, which \<^verbatim>\<open>put\<close> increments and \<^verbatim>\<open>task_done\<close> decrements
  (\<^verbatim>\<open>ValueError\<close> when it is called too often).  \<^verbatim>\<open>get\<close> waits while there is no item and
  \<^verbatim>\<open>join\<close> waits while the counter is not zero.
\<close>

record queue =
  items :: "pystr list"
  unfinished_tasks :: nat

definition empty_queue :: queue where
  "empty_queue = \<lparr>items = [], unfinished_tasks = 0\<rparr>"

definition q_put :: "pystr \<Rightarrow> queue \<Rightarrow> queue" where
  "q_put d q = q\<lparr>items := items q @ [d], unfinished_tasks := unfinished_tasks q + 1\<rparr>"

definition q_task_done :: "queue \<Rightarrow> exn + queue" where
  "q_task_done q =
     (if unfinished_tasks q = 0 then Inl ValueError
      else Inr (q\<lparr>unfinished_tasks := unfinished_tasks q - 1\<rparr>))"

text \<open>
  What the buffer does to the objects around it, in the order in which it happens:
  calls of \<^verbatim>\<open>put\<close> and returns of \<^verbatim>\<open>join\<close> on the queue, the assignment \<^verbatim>\<open>_closed = True\<close>,
  the return of \<^verbatim>\<open>_thread.join()\<close>, the calls \<^verbatim>\<open>write\<close> and \<^verbatim>\<open>flush\<close> on the underlying
  \<^verbatim>\<open>self.stdout\<close>, and the call of the cleanup callback.
\<close>

datatype bevent =
    QueuePut pystr
  | QueueJoin
  | SetClosed
  | ThreadJoin
  | SinkWrite pystr
  | SinkFlush
  | Cleanup

subsection \<open>Two threads\<close>

text \<open>
  The worker thread runs \<^verbatim>\<open>_worker\<close>; its position is the source line it is about to execute
  (\<open>W71_get\<close> before \<^verbatim>\<open>get()\<close>, \<open>W71_write\<close> with the item in hand before \<^verbatim>\<open>_write\<close>), or
  it has returned (\<open>W_exit\<close>) or died of an exception.
  The main thread executes a list of calls on the buffer, one after the other; inside a call its
  position is again the source line it is about to execute, and \<open>M_idle\<close> between calls.
  \<open>Del\<close> is the finaliser \<^verbatim>\<open>__del__\<close>.  What each call returned (\<open>None\<close>) or raised is kept in
  \<open>results\<close>.
\<close>

datatype wpc = W70 | W71_get | W71_write pystr | W72 | W_exit | W_died exn

datatype bcall = Write pystr | Flush | Close | Del

datatype mpc =
    M_idle
  | M38 pystr | M39 pystr | M41 pystr
  | M48
  | M51 | M54 | M55 | M57 | M58 | M59 | M61 | M63 | M64

record buffer =
  u_queue :: "queue option"
  u_closed :: bool
  u_cleanup :: bool
  thread :: wpc
  log :: "bevent list"
  mpc :: mpc
  todo :: "bcall list"
  results :: "exn option list"

text \<open>The constructor: an empty queue, not closed, the worker started; \<open>cleanup\<close> tells whether
  a callback was given.  \<open>prog\<close> is what the main thread is going to call.\<close>

definition new_buffer :: "bool \<Rightarrow> bcall list \<Rightarrow> buffer" where
  "new_buffer cleanup prog =
     \<lparr>u_queue = Some empty_queue, u_closed = False, u_cleanup = cleanup, thread = W70,
      log = [], mpc = M_idle, todo = prog, results = []\<rparr>"

text \<open>One step of the worker; \<open>None\<close> when it waits or has ended.\<close>

definition worker_step :: "buffer \<Rightarrow> buffer option" where
  "worker_step c =
     (case thread c of
        W70 \<Rightarrow> Some (c\<lparr>thread := (if u_closed c then W_exit else W71_get)\<rparr>)
      | W71_get \<Rightarrow>
          (case u_queue c of
             None \<Rightarrow> Some (c\<lparr>thread := W_died AttributeError\<rparr>)
           | Some q \<Rightarrow>
               (case items q of
                  [] \<Rightarrow> None
                | d # ds \<Rightarrow> Some (c\<lparr>u_queue := Some (q\<lparr>items := ds\<rparr>), thread := W71_write d\<rparr>)))
      | W71_write d \<Rightarrow> Some (c\<lparr>log := log c @ [SinkWrite d], thread := W72\<rparr>)
      | W72 \<Rightarrow>
          (case u_queue c of
             None \<Rightarrow> Some (c\<lparr>thread := W_died AttributeError\<rparr>)
           | Some q \<Rightarrow>
               (case q_task_done q of
                  Inl x \<Rightarrow> Some (c\<lparr>thread := W_died x\<rparr>)
                | Inr q' \<Rightarrow> Some (c\<lparr>u_queue := Some q', thread := W70\<rparr>)))
      | W_exit \<Rightarrow> None
      | W_died x \<Rightarrow> None)"

text \<open>The end of a call of the main thread, with what it returned or raised.\<close>

definition finish :: "exn option \<Rightarrow> buffer \<Rightarrow> buffer" where
  "finish r c = c\<lparr>mpc := M_idle, results := results c @ [r]\<rparr>"

text \<open>One step of the main thread; \<open>None\<close> when it waits or has nothing left to call.
  Lines 38 to 45 are \<^verbatim>\<open>write\<close>, line 48 is \<^verbatim>\<open>flush\<close> (line 54 when \<^verbatim>\<open>close\<close> calls it), lines 51
  to 64 are \<^verbatim>\<open>close\<close>.\<close>

definition main_step :: "buffer \<Rightarrow> buffer option" where
  "main_step c =
     (case mpc c of
        M_idle \<Rightarrow>
          (case todo c of
             [] \<Rightarrow> None
           | Write d # cs \<Rightarrow> Some (c\<lparr>mpc := M38 d, todo := cs\<rparr>)
           | Flush # cs \<Rightarrow> Some (c\<lparr>mpc := M48, todo := cs\<rparr>)
           | Close # cs \<Rightarrow> Some (c\<lparr>mpc := M51, todo := cs\<rparr>)
           | Del # cs \<Rightarrow> Some (c\<lparr>mpc := M51, todo := cs\<rparr>))
      | M38 d \<Rightarrow> Some (c\<lparr>mpc := (if u_closed c then M39 d else M41 d)\<rparr>)
      | M39 d \<Rightarrow> Some (finish None (c\<lparr>log := log c @ [SinkWrite d]\<rparr>))
      | M41 d \<Rightarrow>
          (case u_queue c of
             None \<Rightarrow> Some (finish (Some AttributeError) c)
           | Some q \<Rightarrow>
               Some (finish None (c\<lparr>u_queue := Some (q_put d q), log := log c @ [QueuePut d]\<rparr>)))
      | M48 \<Rightarrow>
          (case u_queue c of
             None \<Rightarrow> Some (finish (Some AttributeError) c)
           | Some q \<Rightarrow>
               if unfinished_tasks q = 0 then Some (finish None (c\<lparr>log := log c @ [QueueJoin]\<rparr>))
               else None)
      | M51 \<Rightarrow> (if u_closed c then Some (finish None c) else Some (c\<lparr>mpc := M54\<rparr>))
      | M54 \<Rightarrow>
          (case u_queue c of
             None \<Rightarrow> Some (finish (Some AttributeError) c)
           | Some q \<Rightarrow>
               if unfinished_tasks q = 0 then Some (c\<lparr>log := log c @ [QueueJoin], mpc := M55\<rparr>)
               else None)
      | M55 \<Rightarrow> Some (c\<lparr>u_closed := True, log := log c @ [SetClosed], mpc := M57\<rparr>)
      | M57 \<Rightarrow>
          (case u_queue c of
             None \<Rightarrow> Some (finish (Some AttributeError) c)
           | Some q \<Rightarrow>
               Some (c\<lparr>u_queue := Some (q_put [] q), log := log c @ [QueuePut []], mpc := M58\<rparr>))
      | M58 \<Rightarrow>
          (case thread c of
             W_exit \<Rightarrow> Some (c\<lparr>log := log c @ [ThreadJoin], mpc := M59\<rparr>)
           | W_died x \<Rightarrow> Some (c\<lparr>log := log c @ [ThreadJoin], mpc := M59\<rparr>)
           | _ \<Rightarrow> None)
      | M59 \<Rightarrow> Some (c\<lparr>u_queue := None, mpc := M61\<rparr>)
      | M61 \<Rightarrow> Some (c\<lparr>log := log c @ [SinkFlush], mpc := M63\<rparr>)
      | M63 \<Rightarrow> (if u_cleanup c then Some (c\<lparr>mpc := M64\<rparr>) else Some (finish None c))
      | M64 \<Rightarrow> Some (finish None (c\<lparr>log := log c @ [Cleanup]\<rparr>)))"

text \<open>
  A schedule says, step by step, which thread is preferred; when the preferred thread waits the
  other one runs, and when both wait nothing happens.  Every interleaving of the two threads is
  the run of some schedule.
\<close>

definition sched :: "bool \<Rightarrow> buffer \<Rightarrow> buffer" where
  "sched main_first c =
     (if main_first
      then (case main_step c of
              Some c' \<Rightarrow> c'
            | None \<Rightarrow> (case worker_step c of Some c' \<Rightarrow> c' | None \<Rightarrow> c))
      else (case worker_step c of
              Some c' \<Rightarrow> c'
            | None \<Rightarrow> (case main_step c of Some c' \<Rightarrow> c' | None \<Rightarrow> c)))"

fun run_threads :: "bool list \<Rightarrow> buffer \<Rightarrow> buffer" where
  "run_threads [] c = c"
| "run_threads (b # bs) c = run_threads bs (sched b c)"

text \<open>The caller makes further calls.\<close>

definition then_calls :: "bcall list \<Rightarrow> buffer \<Rightarrow> buffer" where
  "then_calls xs c = c\<lparr>todo := todo c @ xs\<rparr>"

text \<open>The worker alone, for up to a number of steps: it stops where it has to wait.\<close>

fun worker_steps :: "nat \<Rightarrow> buffer \<Rightarrow> buffer" where
  "worker_steps 0 c = c"
| "worker_steps (Suc n) c = (case worker_step c of None \<Rightarrow> c | Some c' \<Rightarrow> worker_steps n c')"

text \<open>Three steps of the main thread, with \<open>i\<close>, \<open>j\<close> and \<open>k\<close> steps of the worker before the
  first, the second and the third of them; \<open>None\<close> when the main thread has to wait.\<close>

definition main3 :: "nat \<Rightarrow> nat \<Rightarrow> nat \<Rightarrow> buffer \<Rightarrow> buffer option" where
  "main3 i j k c =
     (case main_step (worker_steps i c) of
        None \<Rightarrow> None
      | Some c1 \<Rightarrow>
          (case main_step (worker_steps j c1) of
             None \<Rightarrow> None
           | Some c2 \<Rightarrow> main_step (worker_steps k c2)))"

definition finished :: "buffer \<Rightarrow> bool" where
  "finished c \<longleftrightarrow> mpc c = M_idle \<and> todo c = []"

subsection \<open>Reading the log\<close>

fun puts :: "bevent list \<Rightarrow> pystr list" where
  "puts [] = []"
| "puts (QueuePut d # l) = d # puts l"
| "puts (_ # l) = puts l"

fun sink_writes :: "bevent list \<Rightarrow> pystr list" where
  "sink_writes [] = []"
| "sink_writes (SinkWrite d # l) = d # sink_writes l"
| "sink_writes (_ # l) = sink_writes l"

text \<open>What is seen at the underlying sink: the calls on it and the cleanup.\<close>

fun at_sink :: "bevent \<Rightarrow> bool" where
  "at_sink (SinkWrite d) = True"
| "at_sink SinkFlush = True"
| "at_sink Cleanup = True"
| "at_sink _ = False"

fun writes_of :: "bcall list \<Rightarrow> pystr list" where
  "writes_of [] = []"
| "writes_of (Write d # cs) = d # writes_of cs"
| "writes_of (_ # cs) = writes_of cs"

fun open_call :: "bcall \<Rightarrow> bool" where
  "open_call (Write d) = True"
| "open_call Flush = True"
| "open_call _ = False"

text \<open>The second half of \<^verbatim>\<open>close\<close> as it appears in the log; \<open>x\<close> is what the worker did
  with the wakeup item.\<close>

definition close_seq :: "bevent list \<Rightarrow> bool \<Rightarrow> bevent list" where
  "close_seq x cleanup =
     [QueueJoin, SetClosed, QueuePut []] @ x @ [ThreadJoin, SinkFlush] @
     (if cleanup then [Cleanup] else [])"

section \<open>Concrete inputs\<close>

text \<open>A stack of three layers as \<^verbatim>\<open>zmq=*:19026,ascii,term\<close> describes it, an environment
  whose builder knows this description and whose endpoint returns from \<^verbatim>\<open>poll\<close> the bound it
  was given, and the object that the constructor makes there with a timeout of one second.\<close>

definition demo_layers :: "layer list" where
  "demo_layers =
     [\<lparr>lname = ''zmq'', isTerminalLayer = False, fdout = BuilderDefault\<rparr>,
      \<lparr>lname = ''ascii'', isTerminalLayer = False, fdout = BuilderDefault\<rparr>,
      \<lparr>lname = ''term'', isTerminalLayer = True, fdout = BuilderDefault\<rparr>]"

definition demo_env :: "bool \<Rightarrow> real \<Rightarrow> real \<Rightarrow> (real, real option) env" where
  "demo_env waiting lastact now =
     \<lparr>buildStack = (\<lambda>d. if d = ''zmq=*:19026,ascii,term'' then Inr demo_layers
                          else Inl (OtherError d)),
      ep_isWaiting = waiting, ep_lastActivity = lastact, ep_poll = (\<lambda>t. t),
      ep_registerStream = (\<lambda>_ _. None), time_time = now, sys_stdout = 1\<rparr>"

definition demo_obj :: "real stream2zmq" where
  "demo_obj = fst (snd (init (demo_env False 0 0) ''ascii,term'' ''*'' ''19026'' 1))"

definition demo_calls :: "((real, real option) env \<times> real call) list" where
  "demo_calls =
     [(demo_env False 0 1, CPoll None),
      (demo_env True 1 (3 / 2), CPoll (Some 2)),
      (demo_env True 1 (3 / 2), CDecode [0x41]),
      (demo_env True 1 (3 / 2), CRecvAll [Frame [0x42], RecvRaises (ZMQError EAGAIN)] (\<lambda>_. None)),
      (demo_env True (7 / 4) 2, CPoll None),
      (demo_env False (7 / 4) 9, CPoll (Some 2)),
      (demo_env False (7 / 4) 9, CClose)]"

text \<open>An object with a stale stack and a stale cached endpoint, the stack that \<^verbatim>\<open>reset()\<close>
  makes of the builder's layers, and the object after \<^verbatim>\<open>reset()\<close>, with a given cache.\<close>

definition installed_layers :: "layer list" where
  "installed_layers =
     [\<lparr>lname = ''zmq'', isTerminalLayer = False, fdout = BuilderDefault\<rparr>,
      \<lparr>lname = ''ascii'', isTerminalLayer = False, fdout = BuilderDefault\<rparr>,
      \<lparr>lname = ''term'', isTerminalLayer = True, fdout = SelfStdout\<rparr>]"

definition stale_obj :: "real stream2zmq" where
  "stale_obj =
     \<lparr>u_stack_def = ''zmq=*:19026,ascii,term'', u_timeout_s = 1,
      u_stack = [\<lparr>lname = ''old'', isTerminalLayer = True, fdout = BuilderDefault\<rparr>],
      u_zmq = Some \<lparr>lname = ''old'', isTerminalLayer = True, fdout = BuilderDefault\<rparr>\<rparr>"

definition fresh_obj :: "layer option \<Rightarrow> real stream2zmq" where
  "fresh_obj cache =
     \<lparr>u_stack_def = ''zmq=*:19026,ascii,term'', u_timeout_s = 1,
      u_stack = installed_layers, u_zmq = cache\<rparr>"

text \<open>A program of the main thread, and the buffer as a run of \<^verbatim>\<open>write([1])\<close> and \<^verbatim>\<open>close()\<close>
  leaves it.\<close>

definition demo_prog :: "bcall list" where
  "demo_prog = [Write [1], Flush, Write [2]]"

definition closed_buffer :: buffer where
  "closed_buffer =
     \<lparr>u_queue = None, u_closed = True, u_cleanup = True, thread = W_exit,
      log = [QueuePut [1], SinkWrite [1], QueueJoin, SetClosed, QueuePut [], ThreadJoin,
             SinkFlush, Cleanup],
      mpc = M_idle, todo = [], results = [None, None]\<rparr>"

section \<open>Invariants of the output buffer\<close>

text \<open>
  What a run of the two threads keeps true while the main thread makes calls of \<^verbatim>\<open>write\<close> and
  \<^verbatim>\<open>flush\<close> and then one call of \<^verbatim>\<open>close\<close>.  The item that the worker has taken and not yet
  written, the number of tasks it has taken and not yet marked done, and whether it is still
  running:
\<close>

definition inflight :: "wpc \<Rightarrow> pystr list" where
  "inflight t = (case t of W71_write d \<Rightarrow> [d] | _ \<Rightarrow> [])"

definition held :: "wpc \<Rightarrow> nat" where
  "held t = (case t of W71_write d \<Rightarrow> 1 | W72 \<Rightarrow> 1 | _ \<Rightarrow> 0)"

definition alive :: "wpc \<Rightarrow> bool" where
  "alive t = (case t of W_exit \<Rightarrow> False | W_died x \<Rightarrow> False | _ \<Rightarrow> True)"

text \<open>The chunk that a call of \<^verbatim>\<open>write\<close> in progress has not yet put into the queue.\<close>

definition pending :: "mpc \<Rightarrow> pystr list" where
  "pending m = (case m of M38 d \<Rightarrow> [d] | M41 d \<Rightarrow> [d] | _ \<Rightarrow> [])"

text \<open>The events that happen before \<^verbatim>\<open>close\<close> has waited for the queue.\<close>

fun open_event :: "bevent \<Rightarrow> bool" where
  "open_event (QueuePut d) = True"
| "open_event (SinkWrite d) = True"
| "open_event QueueJoin = True"
| "open_event _ = False"

text \<open>Calls of \<^verbatim>\<open>write\<close> and \<^verbatim>\<open>flush\<close>, then one \<^verbatim>\<open>close\<close> (or the finaliser), then nothing.\<close>

fun ends_with_close :: "bcall list \<Rightarrow> bool" where
  "ends_with_close [] = False"
| "ends_with_close (Write d # cs) = ends_with_close cs"
| "ends_with_close (Flush # cs) = ends_with_close cs"
| "ends_with_close (Close # cs) = (cs = [])"
| "ends_with_close (Del # cs) = (cs = [])"

definition queue_is :: "buffer \<Rightarrow> pystr list \<Rightarrow> nat \<Rightarrow> bool" where
  "queue_is c its n =
     (case u_queue c of None \<Rightarrow> False | Some q \<Rightarrow> items q = its \<and> unfinished_tasks q = n)"

definition calls_left :: "buffer \<Rightarrow> nat" where
  "calls_left c = length (todo c) + (if mpc c = M_idle then 0 else 1)"

text \<open>The queue, the log and the worker fit together: the chunks put into the queue are those
  written to the sink, then the one in the worker's hand, then those in the queue; and the
  counter of the queue counts the items in it and the one in the worker's hand.\<close>

definition queue_ok :: "queue option \<Rightarrow> bevent list \<Rightarrow> wpc \<Rightarrow> bool" where
  "queue_ok qo l t =
     (case qo of
        None \<Rightarrow> False
      | Some q \<Rightarrow>
          puts l = sink_writes l @ inflight t @ items q \<and>
          unfinished_tasks q = length (items q) + held t)"

text \<open>Where the main thread can be before \<^verbatim>\<open>close\<close> has waited for the queue, and what it
  has left to call there.\<close>

definition open_pos :: "mpc \<Rightarrow> bcall list \<Rightarrow> bool" where
  "open_pos m cs =
     (case m of
        M_idle \<Rightarrow> ends_with_close cs
      | M38 d \<Rightarrow> ends_with_close cs
      | M41 d \<Rightarrow> ends_with_close cs
      | M48 \<Rightarrow> ends_with_close cs
      | M51 \<Rightarrow> cs = []
      | M54 \<Rightarrow> cs = []
      | _ \<Rightarrow> False)"

text \<open>
  Before \<^verbatim>\<open>close\<close> has waited for the queue: the buffer is open and the worker runs; the
  queue, the log and the worker fit together; and the chunks \<open>W\<close> of all the calls of \<^verbatim>\<open>write\<close> are those put, the one being put, and
  those still to be written.  No call has raised, and \<open>n\<close> calls are made in all.
\<close>

definition open_inv :: "pystr list \<Rightarrow> nat \<Rightarrow> buffer \<Rightarrow> bool" where
  "open_inv W n c \<longleftrightarrow>
     \<not> u_closed c \<and> alive (thread c) \<and> list_all open_event (log c) \<and>
     queue_ok (u_queue c) (log c) (thread c) \<and>
     W = puts (log c) @ pending (mpc c) @ writes_of (todo c) \<and>
     list_all (\<lambda>r. r = None) (results c) \<and>
     length (results c) + calls_left c = n \<and>
     open_pos (mpc c) (todo c)"

text \<open>The log of a buffer inside \<^verbatim>\<open>close\<close>: the events \<open>T\<close> before it, the three events up to the
  wakeup item, possibly the worker's write of that item, and what followed.\<close>

definition log_is :: "buffer \<Rightarrow> bevent list \<Rightarrow> bevent list \<Rightarrow> bool" where
  "log_is c T rest \<longleftrightarrow>
     log c = T @ [QueueJoin, SetClosed, QueuePut []] @ rest \<or>
     log c = T @ [QueueJoin, SetClosed, QueuePut [], SinkWrite []] @ rest"

text \<open>
  From there on, line by line of \<^verbatim>\<open>close\<close>.  On line 58 the main thread waits for the worker,
  which is either about to test \<^verbatim>\<open>_closed\<close> or has ended, or is on its way around the loop with
  the wakeup item.
\<close>

definition closing :: "bevent list \<Rightarrow> nat \<Rightarrow> buffer \<Rightarrow> bool" where
  "closing T n c \<longleftrightarrow>
     todo c = [] \<and> list_all (\<lambda>r. r = None) (results c) \<and>
     length (results c) + calls_left c = n \<and>
     (case mpc c of
        M55 \<Rightarrow>
          \<not> u_closed c \<and> log c = T @ [QueueJoin] \<and> queue_is c [] 0 \<and>
          (thread c = W70 \<or> thread c = W71_get)
      | M57 \<Rightarrow>
          u_closed c \<and> log c = T @ [QueueJoin, SetClosed] \<and> queue_is c [] 0 \<and>
          (thread c = W70 \<or> thread c = W71_get \<or> thread c = W_exit)
      | M58 \<Rightarrow>
          u_closed c \<and>
          (log c = T @ [QueueJoin, SetClosed, QueuePut []] \<and> queue_is c [[]] 1 \<and>
             (thread c = W70 \<or> thread c = W71_get \<or> thread c = W_exit)
           \<or> log c = T @ [QueueJoin, SetClosed, QueuePut []] \<and> queue_is c [] 1 \<and>
             thread c = W71_write []
           \<or> log c = T @ [QueueJoin, SetClosed, QueuePut [], SinkWrite []] \<and> queue_is c [] 1 \<and>
             thread c = W72
           \<or> log c = T @ [QueueJoin, SetClosed, QueuePut [], SinkWrite []] \<and> queue_is c [] 0 \<and>
             (thread c = W70 \<or> thread c = W_exit))
      | M59 \<Rightarrow>
          u_closed c \<and> thread c = W_exit \<and> u_queue c \<noteq> None \<and> log_is c T [ThreadJoin]
      | M61 \<Rightarrow>
          u_closed c \<and> thread c = W_exit \<and> u_queue c = None \<and> log_is c T [ThreadJoin]
      | M63 \<Rightarrow>
          u_closed c \<and> thread c = W_exit \<and> u_queue c = None \<and>
          log_is c T [ThreadJoin, SinkFlush]
      | M64 \<Rightarrow>
          u_closed c \<and> thread c = W_exit \<and> u_queue c = None \<and> u_cleanup c \<and>
          log_is c T [ThreadJoin, SinkFlush]
      | M_idle \<Rightarrow>
          u_closed c \<and> thread c = W_exit \<and> u_queue c = None \<and>
          log_is c T ([ThreadJoin, SinkFlush] @ (if u_cleanup c then [Cleanup] else []))
      | _ \<Rightarrow> False)"

definition buffer_inv :: "pystr list \<Rightarrow> nat \<Rightarrow> buffer \<Rightarrow> bool" where
  "buffer_inv W n c \<longleftrightarrow>
     open_inv W n c \<or>
     (\<exists>T. list_all open_event T \<and> puts T = W \<and> sink_writes T = W \<and> closing T n c)"

text \<open>A bound on the number of steps that the two threads can still make.\<close>

fun call_cost :: "bcall \<Rightarrow> nat" where
  "call_cost (Write d) = 8"
| "call_cost Flush = 2"
| "call_cost Close = 15"
| "call_cost Del = 15"

definition main_cost :: "mpc \<Rightarrow> nat" where
  "main_cost m =
     (case m of
        M_idle \<Rightarrow> 0 | M38 d \<Rightarrow> 7 | M39 d \<Rightarrow> 1 | M41 d \<Rightarrow> 6 | M48 \<Rightarrow> 1
      | M51 \<Rightarrow> 14 | M54 \<Rightarrow> 13 | M55 \<Rightarrow> 12 | M57 \<Rightarrow> 11 | M58 \<Rightarrow> 6 | M59 \<Rightarrow> 5
      | M61 \<Rightarrow> 4 | M63 \<Rightarrow> 3 | M64 \<Rightarrow> 1)"

definition worker_cost :: "wpc \<Rightarrow> nat" where
  "worker_cost t =
     (case t of W70 \<Rightarrow> 2 | W71_get \<Rightarrow> 1 | W71_write d \<Rightarrow> 4 | W72 \<Rightarrow> 3 | _ \<Rightarrow> 0)"

definition steps_left :: "buffer \<Rightarrow> nat" where
  "steps_left c =
     main_cost (mpc c) + sum_list (map call_cost (todo c)) + worker_cost (thread c) +
     4 * (case u_queue c of None \<Rightarrow> 0 | Some q \<Rightarrow> length (items q))"

section \<open>Properties of the orchestrator\<close>

lemmas meth_defs = bnd_def ret_def raise_def emit_def getself_def setself_def

lemmas demo_defs = demo_obj_def demo_env_def demo_layers_def init_def reset_def install_fdout_def

lemma demo_obj_eq:
  "demo_obj =
     \<lparr>u_stack_def = ''zmq=*:19026,ascii,term'', u_timeout_s = 1,
      u_stack =
        [\<lparr>lname = ''zmq'', isTerminalLayer = False, fdout = BuilderDefault\<rparr>,
         \<lparr>lname = ''ascii'', isTerminalLayer = False, fdout = BuilderDefault\<rparr>,
         \<lparr>lname = ''term'', isTerminalLayer = True, fdout = SelfStdout\<rparr>],
      u_zmq = None\<rparr>"
  by (simp add: demo_defs meth_defs)

lemma forget_alt: "forget m s = (fst (m s), fst (snd (m s)))"
  by (simp add: forget_def split: prod.splits)

lemma run_Cons_alt:
  "run ((e, c) # xs) s =
     (fst (exec e c s) @ fst (run xs (snd (exec e c s))), snd (run xs (snd (exec e c s))))"
  by (simp split: prod.splits)

subsection \<open>poll\<close>

text \<open>
  Claim C1, as the code has it.  A call \<^verbatim>\<open>poll(timeout_s)\<close> that finds \<^verbatim>\<open>isWaiting()\<close> false
  calls \<^verbatim>\<open>poll\<close> of the transport endpoint with \<^verbatim>\<open>timeout_s\<close> exactly as it was given, also
  when that is \<^verbatim>\<open>None\<close>; it does not call \<^verbatim>\<open>timeout()\<close>, and it returns what the endpoint
  returned.  The events are the debug message, the question \<^verbatim>\<open>isWaiting\<close> and the endpoint's
  \<^verbatim>\<open>poll\<close>, and the object changes only in that the endpoint is cached.
\<close>

theorem poll_not_waiting:
  assumes "\<not> ep_isWaiting e" and "u_stack s \<noteq> []"
  shows "fst (poll e timeout_s s) = [LoggerDebug MsgPoll, ZmqIsWaiting, ZmqPoll timeout_s]
       \<and> snd (snd (poll e timeout_s s)) = Inr (ep_poll e timeout_s)
       \<and> fst (snd (poll e timeout_s s)) = fst (snd (zmq s))"
  using assms
  by (cases "u_zmq s"; cases "u_stack s") (auto simp: poll_def isWaiting_def zmq_def meth_defs)

theorem poll_not_waiting_witness:
  "\<not> ep_isWaiting (demo_env False 0 5) \<and> u_stack demo_obj \<noteq> []
   \<and> fst (poll (demo_env False 0 5) (Some 2) demo_obj)
       = [LoggerDebug MsgPoll, ZmqIsWaiting, ZmqPoll (Some 2)]
   \<and> snd (snd (poll (demo_env False 0 5) (Some 2) demo_obj)) = Inr (Some 2)"
  using poll_not_waiting [of "demo_env False 0 5" demo_obj "Some 2"]
  by (simp add: demo_obj_eq demo_env_def)

text \<open>Claim C1 as it is written fails: with no \<^verbatim>\<open>timeout_s\<close> given and the endpoint not
  waiting, the endpoint is polled with \<^verbatim>\<open>None\<close> and not with the timeout of one second that
  the constructor was given.\<close>

theorem poll_not_waiting_default_counterexample:
  "u_timeout_s demo_obj = 1
   \<and> fst (poll (demo_env False 0 5) None demo_obj) = [LoggerDebug MsgPoll, ZmqIsWaiting, ZmqPoll None]
   \<and> ZmqPoll (Some (u_timeout_s demo_obj)) \<notin> set (fst (poll (demo_env False 0 5) None demo_obj))"
  by (simp add: demo_obj_eq demo_env_def poll_def isWaiting_def zmq_def meth_defs)

text \<open>
  Claim C2.  A call \<^verbatim>\<open>poll(timeout_s)\<close> that finds \<^verbatim>\<open>isWaiting()\<close> true asks the endpoint for
  \<^verbatim>\<open>lastActivity()\<close> and the clock for the time and takes
  \<^verbatim>\<open>remaining = lastActivity + _timeout_s - now\<close>.  When \<^verbatim>\<open>remaining \<le> 0\<close> it calls \<^verbatim>\<open>timeout()\<close>
  and then polls the endpoint with \<^verbatim>\<open>timeout_s\<close>; otherwise it does not call \<^verbatim>\<open>timeout()\<close> and
  polls with \<^verbatim>\<open>min(timeout_s, remaining)\<close>.  In both cases a \<^verbatim>\<open>timeout_s\<close> of \<^verbatim>\<open>None\<close> stands for
  the configured \<^verbatim>\<open>_timeout_s\<close>, and the result is what the endpoint returned.
\<close>

theorem poll_waiting:
  assumes "ep_isWaiting e" and "u_stack s \<noteq> []"
  shows "fst (poll e timeout_s s) =
           [LoggerDebug MsgPoll, ZmqIsWaiting, ZmqLastActivity, TimeTime] @
           (if ep_lastActivity e + u_timeout_s s - time_time e \<le> 0
            then [StackTimeout,
                  ZmqPoll (Some (case timeout_s of None \<Rightarrow> u_timeout_s s | Some t \<Rightarrow> t))]
            else [ZmqPoll (Some (min (case timeout_s of None \<Rightarrow> u_timeout_s s | Some t \<Rightarrow> t)
                                     (ep_lastActivity e + u_timeout_s s - time_time e)))])
       \<and> snd (snd (poll e timeout_s s)) =
           Inr (ep_poll e (Some
             (if ep_lastActivity e + u_timeout_s s - time_time e \<le> 0
              then (case timeout_s of None \<Rightarrow> u_timeout_s s | Some t \<Rightarrow> t)
              else min (case timeout_s of None \<Rightarrow> u_timeout_s s | Some t \<Rightarrow> t)
                       (ep_lastActivity e + u_timeout_s s - time_time e))))"
  using assms
  by (cases "u_zmq s"; cases "u_stack s"; cases timeout_s)
     (auto simp: poll_def isWaiting_def timeout_def zmq_def meth_defs Let_def)

theorem poll_waiting_witness:
  "ep_isWaiting (demo_env True 0 5) \<and> u_stack demo_obj \<noteq> []
   \<and> fst (poll (demo_env True 0 5) (Some 2) demo_obj)
       = [LoggerDebug MsgPoll, ZmqIsWaiting, ZmqLastActivity, TimeTime, StackTimeout,
          ZmqPoll (Some 2)]
   \<and> snd (snd (poll (demo_env True 0 5) (Some 2) demo_obj)) = Inr (Some 2)
   \<and> fst (poll (demo_env True (9 / 2) 5) (Some 2) demo_obj)
       = [LoggerDebug MsgPoll, ZmqIsWaiting, ZmqLastActivity, TimeTime, ZmqPoll (Some (1 / 2))]
   \<and> snd (snd (poll (demo_env True (9 / 2) 5) None demo_obj)) = Inr (Some (1 / 2))"
  using poll_waiting [of "demo_env True 0 5" demo_obj "Some 2"]
    poll_waiting [of "demo_env True (9 / 2) 5" demo_obj "Some 2"]
    poll_waiting [of "demo_env True (9 / 2) 5" demo_obj None]
  by (simp add: demo_obj_eq demo_env_def)

subsection \<open>recvAll\<close>

lemma drain_frames:
  "fst (handle_frames f ds h) = None \<Longrightarrow>
   drain (map Frame ds @ RecvRaises x # rest) f h =
     (concat (map (\<lambda>d. [SocketRecv, HandlerCall d]) ds) @ [SocketRecv], Some x,
      snd (handle_frames f ds h))"
  by (induction ds arbitrary: h) (auto split: prod.splits option.splits)

lemma recvAll_fst: "fst (recvAll rs f h) = fst (drain rs f h)"
  by (simp add: recvAll_def split: prod.splits)

lemma drain_no_timeout: "StackTimeout \<notin> set (fst (drain rs f h))"
  by (induction rs f h rule: drain.induct) (auto split: prod.splits option.splits)

text \<open>
  Claim C3.  Let the socket deliver the frames \<open>ds\<close> and then raise \<open>x\<close> from \<^verbatim>\<open>recv\<close>, and
  let the handler return normally on these frames.  Then \<^verbatim>\<open>recvAll\<close> calls \<^verbatim>\<open>recv\<close> once per
  frame and once more, calls the handler exactly once on each frame, in the order of arrival and
  right after the frame was received, and leaves the handler in the state that these calls
  produce.  It returns normally when \<open>x\<close> is a \<^verbatim>\<open>ZMQError\<close> with errno \<^verbatim>\<open>EAGAIN\<close>, and raises
  \<open>x\<close> itself otherwise.  What the socket would do after \<open>x\<close> plays no part.
\<close>

theorem recvAll_drains:
  assumes "fst (handle_frames f ds h) = None"
  shows "recvAll (map Frame ds @ RecvRaises x # rest) f h =
           (concat (map (\<lambda>d. [SocketRecv, HandlerCall d]) ds) @ [SocketRecv],
            Some (if x = ZMQError EAGAIN then Inr () else Inl x),
            snd (handle_frames f ds h))"
  unfolding recvAll_def drain_frames [OF assms, of x rest]
  by (auto simp: except_ZMQError_def split: exn.splits)

theorem recvAll_drains_witness:
  "fst (handle_frames (\<lambda>d h. (None, h @ [d])) [[0x42], [0x43, 0x44]] []) = None
   \<and> recvAll [Frame [0x42], Frame [0x43, 0x44], RecvRaises (ZMQError EAGAIN), Frame [0x45]]
        (\<lambda>d h. (None, h @ [d])) []
       = ([SocketRecv, HandlerCall [0x42], SocketRecv, HandlerCall [0x43, 0x44], SocketRecv],
          Some (Inr ()), [[0x42], [0x43, 0x44]])
   \<and> recvAll [Frame [0x42], Frame [0x43, 0x44], RecvRaises (ZMQError 4), Frame [0x45]]
        (\<lambda>d h. (None, h @ [d])) []
       = ([SocketRecv, HandlerCall [0x42], SocketRecv, HandlerCall [0x43, 0x44], SocketRecv],
          Some (Inl (ZMQError 4)), [[0x42], [0x43, 0x44]])"
  using recvAll_drains [of "\<lambda>d h. (None, h @ [d])" "[[0x42], [0x43, 0x44]]" "[]"
      "ZMQError EAGAIN" "[Frame [0x45]]"]
    recvAll_drains [of "\<lambda>d h. (None, h @ [d])" "[[0x42], [0x43, 0x44]]" "[]"
      "ZMQError 4" "[Frame [0x45]]"]
  by (simp add: EAGAIN_def)

subsection \<open>stdout\<close>

lemma good_isr: "\<not> isl r \<Longrightarrow> \<not> isl (good cp r)"
  by (cases r) (simp_all add: good_def)

lemma bad_isr: "\<not> isl r \<Longrightarrow> \<not> isl (bad Replace r)"
  by (simp add: bad_def good_isr)

lemma utf8_decode_replace_total: "m = Replace \<Longrightarrow> \<not> isl (utf8_decode m data)"
proof (induction m data rule: utf8_decode.induct)
  case (1 m)
  show ?case by simp
next
  case (2 m b0 r)
  show ?case
    apply (subst utf8_decode.simps)
    using 2
    by (auto simp del: utf8_decode.simps simp: good_isr bad_isr split: list.splits)
qed

text \<open>
  Claim C9.  For every byte sequence \<open>data\<close>, valid UTF-8 or not, decoding with
  \<^verbatim>\<open>errors="replace"\<close> yields a text \<open>t\<close> and raises nothing, and \<^verbatim>\<open>stdout(data)\<close> makes
  exactly one call, \<^verbatim>\<open>write(t)\<close> on the object that \<^verbatim>\<open>sys.stdout\<close> is bound to at that moment,
  returns normally and leaves the orchestrator as it was.
\<close>

theorem stdout_never_raises:
  "\<exists>t. utf8_decode Replace data = Inr t
      \<and> stdout e data s = ([SysStdoutWrite (sys_stdout e) t], s, Inr ())"
proof -
  obtain t where "utf8_decode Replace data = Inr t"
    using utf8_decode_replace_total [of Replace data]
    by (cases "utf8_decode Replace data") auto
  then show ?thesis by (simp add: stdout_def meth_defs)
qed

theorem stdout_never_raises_witness:
  "utf8_decode Strict [0x41, 0xFF, 0xC3, 0xA9, 0xE2, 0x82] = Inl UnicodeDecodeError
   \<and> stdout (demo_env False 0 0) [0x41, 0xFF, 0xC3, 0xA9, 0xE2, 0x82] demo_obj
       = ([SysStdoutWrite 1 [0x41, 0xFFFD, 0xE9, 0xFFFD]], demo_obj, Inr ())"
proof -
  have d: "utf8_decode Replace [0x41, 0xFF, 0xC3, 0xA9, 0xE2, 0x82]
             = Inr [0x41, 0xFFFD, 0xE9, 0xFFFD]"
    by (simp add: good_def bad_def is_cont_def second_ok3_def second_ok4_def low6_def)
  have s: "utf8_decode Strict [0x41, 0xFF, 0xC3, 0xA9, 0xE2, 0x82] = Inl UnicodeDecodeError"
    by (simp add: good_def bad_def)
  have n: "sys_stdout (demo_env False 0 0) = 1"
    by (simp add: demo_env_def)
  show ?thesis
    using stdout_never_raises [of "[0x41, 0xFF, 0xC3, 0xA9, 0xE2, 0x82]" "demo_env False 0 0" demo_obj]
    unfolding d s n by simp
qed

subsection \<open>No premature timeout\<close>

lemma poll_timeout_s: "u_timeout_s (fst (snd (poll e t s))) = u_timeout_s s"
  by (cases "u_zmq s"; cases "u_stack s"; cases t)
     (auto simp: poll_def isWaiting_def timeout_def zmq_def meth_defs Let_def)

lemma poll_no_timeout:
  "\<not> ep_isWaiting e \<or> 0 < ep_lastActivity e + u_timeout_s s - time_time e \<Longrightarrow>
   StackTimeout \<notin> set (fst (poll e t s))"
  by (cases "u_zmq s"; cases "u_stack s"; cases t)
     (auto simp: poll_def isWaiting_def timeout_def zmq_def meth_defs Let_def)

lemma reset_timeout_s: "u_timeout_s (fst (snd (reset e s))) = u_timeout_s s"
  by (cases "buildStack e (u_stack_def s)") (auto simp: reset_def meth_defs)

lemma reset_events: "StackTimeout \<notin> set (fst (reset e s))"
  by (cases "buildStack e (u_stack_def s)") (auto simp: reset_def meth_defs)

lemma exec_timeout_s: "u_timeout_s (snd (exec e c s)) = u_timeout_s s"
proof (cases c)
  case CReset
  then show ?thesis using reset_timeout_s [of e s] by (simp add: forget_alt)
next
  case (CPoll t)
  then show ?thesis using poll_timeout_s [of e t s] by (simp add: forget_alt)
next
  case (CStdout d)
  then show ?thesis
    by (cases "utf8_decode Replace d") (auto simp: forget_alt stdout_def meth_defs)
qed (cases "u_zmq s"; cases "u_stack s";
     auto simp: forget_alt encode_def decode_def timeout_def isWaiting_def registerStream_def
       close_def zmq_def meth_defs)+

lemma exec_no_timeout:
  assumes "active (u_timeout_s s) (e, c)"
  shows "StackTimeout \<notin> set (fst (exec e c s))"
proof (cases c)
  case CReset
  then show ?thesis using reset_events [of e s] by (simp add: forget_alt)
next
  case (CPoll t)
  then show ?thesis using assms poll_no_timeout [of e s t]
    by (simp add: forget_alt active_def)
next
  case (CStdout d)
  then show ?thesis
    by (cases "utf8_decode Replace d") (auto simp: forget_alt stdout_def meth_defs)
next
  case (CRecvAll rs f)
  then show ?thesis using drain_no_timeout [of rs "\<lambda>d h. (f d, h)" "()"]
    by (simp add: recvAll_fst)
next
  case CTimeout
  then show ?thesis using assms by (simp add: active_def)
qed (cases "u_zmq s"; cases "u_stack s";
     auto simp: forget_alt encode_def decode_def isWaiting_def registerStream_def
       close_def zmq_def meth_defs)+

text \<open>
  Claim C7.  Take any execution, that is any sequence of calls of \<^verbatim>\<open>reset\<close>, \<^verbatim>\<open>encode\<close>,
  \<^verbatim>\<open>decode\<close>, \<^verbatim>\<open>stdout\<close>, \<^verbatim>\<open>isWaiting\<close>, \<^verbatim>\<open>poll\<close>, \<^verbatim>\<open>recvAll\<close>, \<^verbatim>\<open>registerStream\<close>, \<^verbatim>\<open>zmq\<close>
  and \<^verbatim>\<open>close\<close> with arbitrary arguments, in which nobody calls \<^verbatim>\<open>timeout()\<close> from outside
  and every \<^verbatim>\<open>poll\<close> that finds the endpoint waiting finds
  \<^verbatim>\<open>lastActivity + _timeout_s - now\<close> positive.  Then the stack's \<^verbatim>\<open>timeout()\<close> is never
  invoked: not by \<^verbatim>\<open>poll\<close>, and not by any of the other operations.
\<close>

theorem no_premature_timeout:
  assumes "\<forall>x\<in>set xs. active (u_timeout_s s) x"
  shows "StackTimeout \<notin> set (fst (run xs s))"
  using assms
proof (induction xs arbitrary: s)
  case Nil
  then show ?case by simp
next
  case (Cons x xs)
  obtain e c where x: "x = (e, c)" by (cases x)
  obtain ev s' where ex: "exec e c s = (ev, s')" by (cases "exec e c s")
  have t: "u_timeout_s s' = u_timeout_s s" using exec_timeout_s [of e c s] ex by simp
  have "StackTimeout \<notin> set ev" using exec_no_timeout [of s e c] Cons.prems x ex by simp
  moreover have "StackTimeout \<notin> set (fst (run xs s'))"
    using Cons.IH [of s'] Cons.prems t by simp
  ultimately show ?case using x ex by (simp add: run_Cons_alt del: run.simps)
qed

theorem no_premature_timeout_witness:
  "list_all (active (u_timeout_s demo_obj)) demo_calls
   \<and> length demo_calls = 7
   \<and> StackTimeout \<notin> set (fst (run demo_calls demo_obj))"
proof -
  have a: "\<forall>x\<in>set demo_calls. active (u_timeout_s demo_obj) x"
    by (simp add: demo_calls_def demo_obj_eq demo_env_def active_def)
  show ?thesis
    using no_premature_timeout [of demo_calls demo_obj] a
    by (simp add: list_all_iff) (simp add: demo_calls_def)
qed

subsection \<open>reset and the cached endpoint\<close>

lemma poll_keeps_zmq: "u_zmq s = Some z \<Longrightarrow> fst (snd (poll e t s)) = s"
  by (cases t) (auto simp: poll_def isWaiting_def timeout_def zmq_def meth_defs Let_def)

lemma exec_keeps_zmq:
  assumes "c \<noteq> CReset" "u_zmq s = Some z"
  shows "snd (exec e c s) = s"
proof (cases c)
  case CReset
  then show ?thesis using assms by simp
next
  case (CPoll t)
  then show ?thesis using poll_keeps_zmq [OF assms(2), of e t] by (simp add: forget_alt)
next
  case (CStdout d)
  then show ?thesis
    by (cases "utf8_decode Replace d") (auto simp: forget_alt stdout_def meth_defs)
qed (use assms in \<open>auto simp: forget_alt encode_def decode_def timeout_def isWaiting_def
       registerStream_def close_def zmq_def meth_defs\<close>)

lemma run_keeps_zmq:
  "\<forall>x\<in>set xs. snd x \<noteq> CReset \<Longrightarrow> u_zmq s = Some z \<Longrightarrow> snd (run xs s) = s"
proof (induction xs)
  case Nil
  then show ?case by simp
next
  case (Cons x xs)
  obtain e c where x: "x = (e, c)" by (cases x)
  have "snd (exec e c s) = s" using exec_keeps_zmq [of c s z e] Cons.prems x by simp
  then show ?case using Cons x by (simp add: run_Cons_alt del: run.simps)
qed

text \<open>
  Claim C8, as the code has it.  Let \<^verbatim>\<open>protocol.buildStack\<close> return the layers \<open>l # ls\<close> for the
  stored description.  Then \<^verbatim>\<open>reset()\<close> calls the builder with the stored description and wraps
  the new stack, returns normally, and leaves an object whose stack is the builder's list of
  layers, in which every layer that is a \<^verbatim>\<open>TerminalLayer\<close> has \<^verbatim>\<open>fdout\<close> set to \<^verbatim>\<open>self.stdout\<close>
  and every other layer is as the builder made it, and whose cached endpoint is empty, whatever
  stack and cache the object had before.  The endpoint is the first layer of that stack: it is
  there when \<^verbatim>\<open>reset()\<close> returns.  The first access to \<^verbatim>\<open>zmq\<close> after that builds nothing, it
  returns this first layer and caches the reference.  The reference then stays cached over every
  sequence \<open>xs\<close> of calls of operations other than \<^verbatim>\<open>reset\<close>; in particular \<^verbatim>\<open>close\<close> calls
  \<^verbatim>\<open>close\<close> on the endpoint and leaves the reference cached, and a later access returns the same
  layer.
\<close>

theorem reset_rebuilds:
  assumes "buildStack e (u_stack_def s) = Inr (l # ls)"
    and "\<forall>x\<in>set xs. snd x \<noteq> CReset"
  shows "let S = map (\<lambda>k. if isTerminalLayer k then k\<lparr>fdout := SelfStdout\<rparr> else k) (l # ls);
             z = (if isTerminalLayer l then l\<lparr>fdout := SelfStdout\<rparr> else l);
             s1 = s\<lparr>u_stack := S, u_zmq := None\<rparr>;
             s2 = s\<lparr>u_stack := S, u_zmq := Some z\<rparr>
         in reset e s = ([BuildStack (u_stack_def s), Wrap], s1, Inr ())
          \<and> hd (u_stack s1) = z
          \<and> zmq s1 = ([], s2, Inr z)
          \<and> snd (run xs s2) = s2
          \<and> close s2 = ([ZmqClose], s2, Inr ())
          \<and> zmq s2 = ([], s2, Inr z)"
proof -
  let ?S = "map (\<lambda>k. if isTerminalLayer k then k\<lparr>fdout := SelfStdout\<rparr> else k) (l # ls)"
  let ?z = "if isTerminalLayer l then l\<lparr>fdout := SelfStdout\<rparr> else l"
  let ?s1 = "s\<lparr>u_stack := ?S, u_zmq := None\<rparr>"
  let ?s2 = "s\<lparr>u_stack := ?S, u_zmq := Some ?z\<rparr>"
  have f: "install_fdout = (\<lambda>k. if isTerminalLayer k then k\<lparr>fdout := SelfStdout\<rparr> else k)"
    by (rule ext) (simp add: install_fdout_def)
  have r: "reset e s = ([BuildStack (u_stack_def s), Wrap], ?s1, Inr ())"
    using assms(1) unfolding f [symmetric] by (simp add: reset_def meth_defs)
  have h: "hd (u_stack ?s1) = ?z"
    by simp
  have z: "zmq ?s1 = ([], ?s2, Inr ?z)"
    by (simp add: zmq_def)
  have k: "snd (run xs ?s2) = ?s2"
    using run_keeps_zmq [OF assms(2), of ?s2 ?z] by simp
  have c: "close ?s2 = ([ZmqClose], ?s2, Inr ())"
    by (simp add: close_def zmq_def meth_defs)
  have z2: "zmq ?s2 = ([], ?s2, Inr ?z)"
    by (simp add: zmq_def)
  show ?thesis
    unfolding Let_def using r h z k c z2 by blast
qed

theorem reset_rebuilds_witness:
  "buildStack (demo_env False 0 0) (u_stack_def stale_obj) = Inr demo_layers
   \<and> list_all (\<lambda>x. snd x \<noteq> CReset) demo_calls
   \<and> reset (demo_env False 0 0) stale_obj =
       ([BuildStack ''zmq=*:19026,ascii,term'', Wrap], fresh_obj None, Inr ())
   \<and> zmq (fresh_obj None) = ([], fresh_obj (Some (hd installed_layers)), Inr (hd installed_layers))
   \<and> snd (run demo_calls (fresh_obj (Some (hd installed_layers))))
       = fresh_obj (Some (hd installed_layers))
   \<and> close (fresh_obj (Some (hd installed_layers)))
       = ([ZmqClose], fresh_obj (Some (hd installed_layers)), Inr ())"
proof -
  have a: "\<forall>x\<in>set demo_calls. snd x \<noteq> CReset"
    by (simp add: demo_calls_def)
  have b: "buildStack (demo_env False 0 0) (u_stack_def stale_obj)
             = Inr (hd demo_layers # tl demo_layers)"
    by (simp add: stale_obj_def demo_env_def demo_layers_def)
  have c: "list_all (\<lambda>x. snd x \<noteq> CReset) demo_calls"
    using a by (simp add: list_all_iff)
  have d: "buildStack (demo_env False 0 0) (u_stack_def stale_obj) = Inr demo_layers"
    by (simp add: stale_obj_def demo_env_def)
  have S: "map (\<lambda>k. if isTerminalLayer k then k\<lparr>fdout := SelfStdout\<rparr> else k)
             (hd demo_layers # tl demo_layers) = installed_layers"
    by (simp add: demo_layers_def installed_layers_def)
  have z: "(if isTerminalLayer (hd demo_layers) then (hd demo_layers)\<lparr>fdout := SelfStdout\<rparr>
            else hd demo_layers) = hd installed_layers"
    by (simp add: demo_layers_def installed_layers_def)
  have o: "\<And>cache. stale_obj\<lparr>u_stack := installed_layers, u_zmq := cache\<rparr> = fresh_obj cache"
    by (simp add: stale_obj_def fresh_obj_def)
  have n: "u_stack_def stale_obj = ''zmq=*:19026,ascii,term''"
    by (simp add: stale_obj_def)
  show ?thesis
    using reset_rebuilds [OF b a] c d
    unfolding Let_def S z o n by blast
qed

text \<open>
  Claim C8 as it is written fails in its last part.  Reset the object with the stale stack: the
  endpoint is the first layer of the new stack as soon as \<^verbatim>\<open>reset()\<close> has returned, with the
  cache still empty; the first access to \<^verbatim>\<open>zmq\<close> causes no call of the builder and leaves the
  stack as it is, so it creates nothing; and after \<^verbatim>\<open>close()\<close> the reference is still cached.
\<close>

theorem reset_lazy_counterexample:
  "fst (snd (reset (demo_env False 0 0) stale_obj)) = fresh_obj None
   \<and> u_zmq (fresh_obj None) = None
   \<and> hd (u_stack (fresh_obj None)) = \<lparr>lname = ''zmq'', isTerminalLayer = False, fdout = BuilderDefault\<rparr>
   \<and> fst (zmq (fresh_obj None)) = []
   \<and> u_stack (fst (snd (zmq (fresh_obj None)))) = u_stack (fresh_obj None)
   \<and> snd (snd (zmq (fresh_obj None)))
       = Inr \<lparr>lname = ''zmq'', isTerminalLayer = False, fdout = BuilderDefault\<rparr>
   \<and> u_zmq (fst (snd (close (fst (snd (zmq (fresh_obj None)))))))
       = Some \<lparr>lname = ''zmq'', isTerminalLayer = False, fdout = BuilderDefault\<rparr>"
  by (simp add: stale_obj_def fresh_obj_def installed_layers_def demo_env_def demo_layers_def
        reset_def install_fdout_def zmq_def close_def meth_defs)

section \<open>Properties of the output buffer\<close>

lemma puts_append: "puts (a @ b) = puts a @ puts b"
  by (induction a rule: puts.induct) simp_all

lemma sink_writes_append: "sink_writes (a @ b) = sink_writes a @ sink_writes b"
  by (induction a rule: sink_writes.induct) simp_all

lemma open_inv_worker:
  assumes "open_inv W n c" and "worker_step c = Some c'"
  shows "open_inv W n c'"
  using assms
  by (cases "thread c")
     (auto simp: open_inv_def queue_ok_def worker_step_def inflight_def held_def alive_def calls_left_def
        q_task_done_def puts_append sink_writes_append
        split: option.splits list.splits if_splits)

lemma worker_keeps:
  "worker_step c = Some c' \<Longrightarrow>
   mpc c' = mpc c \<and> todo c' = todo c \<and> results c' = results c \<and> u_closed c' = u_closed c
   \<and> u_cleanup c' = u_cleanup c"
  by (cases "thread c")
     (auto simp: worker_step_def split: option.splits list.splits sum.splits if_splits)

lemma open_inv_main:
  assumes "open_inv W n c" and "main_step c = Some c'"
  shows "open_inv W n c' \<or>
         (list_all open_event (log c) \<and> puts (log c) = W \<and> sink_writes (log c) = W
          \<and> closing (log c) n c')"
proof (cases "mpc c")
  case M_idle
  then show ?thesis
    using assms
    by (cases "todo c"; cases "hd (todo c)")
       (auto simp: open_inv_def open_pos_def main_step_def pending_def calls_left_def)
next
  case M54
  then show ?thesis
    using assms
    by (cases "thread c")
       (auto simp: open_inv_def queue_ok_def open_pos_def closing_def main_step_def pending_def
          calls_left_def queue_is_def inflight_def held_def alive_def finish_def
          split: option.splits if_splits)
qed (use assms in \<open>auto simp: open_inv_def queue_ok_def open_pos_def main_step_def pending_def
       calls_left_def finish_def q_put_def puts_append sink_writes_append
       split: option.splits if_splits\<close>)

lemma closing_worker:
  assumes "closing T n c" and "worker_step c = Some c'"
  shows "closing T n c'"
  using assms
  by (cases "mpc c"; cases "thread c")
     (auto simp: closing_def worker_step_def queue_is_def calls_left_def q_task_done_def log_is_def
        split: option.splits list.splits if_splits)

lemma closing_main:
  assumes "closing T n c" and "main_step c = Some c'"
  shows "closing T n c'"
  using assms
  by (cases "mpc c")
     (auto simp: closing_def main_step_def queue_is_def calls_left_def q_put_def log_is_def
        finish_def
        split: option.splits list.splits if_splits wpc.splits)

lemma open_inv_moves:
  assumes "open_inv W n c"
  shows "worker_step c \<noteq> None \<or> main_step c \<noteq> None"
  using assms
  by (cases "mpc c"; cases "thread c"; cases "todo c"; cases "hd (todo c)")
     (auto simp: open_inv_def queue_ok_def open_pos_def worker_step_def main_step_def held_def
        alive_def q_task_done_def
        split: option.splits list.splits if_splits)

lemma closing_moves:
  assumes "closing T n c" and "mpc c \<noteq> M_idle"
  shows "worker_step c \<noteq> None \<or> main_step c \<noteq> None"
  using assms
  by (cases "mpc c"; cases "thread c")
     (auto simp: closing_def worker_step_def main_step_def queue_is_def q_task_done_def
        split: option.splits list.splits if_splits)

lemma closing_rests:
  assumes "closing T n c" and "mpc c = M_idle"
  shows "worker_step c = None \<and> main_step c = None \<and> steps_left c = 0"
  using assms
  by (auto simp: closing_def worker_step_def main_step_def steps_left_def main_cost_def
        worker_cost_def)

lemma worker_step_less:
  "worker_step c = Some c' \<Longrightarrow> steps_left c' < steps_left c"
  by (cases "thread c")
     (auto simp: worker_step_def steps_left_def worker_cost_def q_task_done_def
        split: option.splits list.splits if_splits)

lemma main_step_less:
  "main_step c = Some c' \<Longrightarrow> steps_left c' < steps_left c"
  by (cases "mpc c"; cases "todo c"; cases "hd (todo c)")
     (auto simp: main_step_def steps_left_def main_cost_def finish_def q_put_def
        split: option.splits list.splits if_splits wpc.splits)

lemma main_keeps_cleanup: "main_step c = Some c' \<Longrightarrow> u_cleanup c' = u_cleanup c"
  by (cases "mpc c"; cases "todo c"; cases "hd (todo c)")
     (auto simp: main_step_def finish_def split: option.splits if_splits wpc.splits)

lemma sched_cases:
  "sched b c = c \<and> worker_step c = None \<and> main_step c = None
   \<or> worker_step c = Some (sched b c) \<or> main_step c = Some (sched b c)"
  by (cases b; cases "worker_step c"; cases "main_step c") (simp_all add: sched_def)

lemma sched_cleanup: "u_cleanup (sched b c) = u_cleanup c"
  using sched_cases [of b c] worker_keeps [of c "sched b c"] main_keeps_cleanup [of c "sched b c"]
  by fastforce

lemma run_threads_cleanup: "u_cleanup (run_threads sch c) = u_cleanup c"
  by (induction sch arbitrary: c) (simp_all add: sched_cleanup)

lemma buffer_inv_worker:
  assumes "buffer_inv W n c" and "worker_step c = Some c'"
  shows "buffer_inv W n c'"
proof -
  from assms(1) consider "open_inv W n c"
    | T where "list_all open_event T" "puts T = W" "sink_writes T = W" "closing T n c"
    unfolding buffer_inv_def by blast
  then show ?thesis
  proof cases
    case 1
    then have "open_inv W n c'" using assms(2) by (rule open_inv_worker)
    then show ?thesis by (simp add: buffer_inv_def)
  next
    case 2
    from 2(4) assms(2) have "closing T n c'" by (rule closing_worker)
    with 2 show ?thesis unfolding buffer_inv_def by blast
  qed
qed

lemma buffer_inv_main:
  assumes "buffer_inv W n c" and "main_step c = Some c'"
  shows "buffer_inv W n c'"
proof -
  from assms(1) consider "open_inv W n c"
    | T where "list_all open_event T" "puts T = W" "sink_writes T = W" "closing T n c"
    unfolding buffer_inv_def by blast
  then show ?thesis
  proof cases
    case 1
    then show ?thesis
      using open_inv_main [OF 1 assms(2)] unfolding buffer_inv_def by blast
  next
    case 2
    from 2(4) assms(2) have "closing T n c'" by (rule closing_main)
    with 2 show ?thesis unfolding buffer_inv_def by blast
  qed
qed

lemma buffer_inv_sched: "buffer_inv W n c \<Longrightarrow> buffer_inv W n (sched b c)"
  using sched_cases [of b c] buffer_inv_worker [of W n c "sched b c"]
    buffer_inv_main [of W n c "sched b c"]
  by fastforce

lemma open_inv_not_finished: "open_inv W n c \<Longrightarrow> \<not> finished c"
  by (auto simp: open_inv_def open_pos_def finished_def)

lemma buffer_inv_moves:
  assumes "buffer_inv W n c" and "\<not> finished c"
  shows "worker_step c \<noteq> None \<or> main_step c \<noteq> None"
proof -
  from assms(1) consider "open_inv W n c" | T where "closing T n c"
    unfolding buffer_inv_def by blast
  then show ?thesis
  proof cases
    case 1
    then show ?thesis by (rule open_inv_moves)
  next
    case 2
    moreover from 2 assms(2) have "mpc c \<noteq> M_idle"
      by (auto simp: closing_def finished_def)
    ultimately show ?thesis by (rule closing_moves)
  qed
qed

lemma sched_less:
  assumes "buffer_inv W n c" and "\<not> finished c"
  shows "steps_left (sched b c) < steps_left c"
  using buffer_inv_moves [OF assms] sched_cases [of b c] worker_step_less [of c "sched b c"]
    main_step_less [of c "sched b c"]
  by fastforce

lemma sched_rests:
  assumes "buffer_inv W n c" and "finished c"
  shows "sched b c = c \<and> steps_left c = 0"
proof -
  from assms obtain T where "closing T n c"
    unfolding buffer_inv_def using open_inv_not_finished by blast
  with assms(2) show ?thesis
    using closing_rests [of T n c] by (simp add: finished_def sched_def)
qed

lemma run_threads_finishes:
  "buffer_inv W n c \<Longrightarrow> steps_left c \<le> length sch \<Longrightarrow>
   finished (run_threads sch c) \<and> buffer_inv W n (run_threads sch c)"
proof (induction sch arbitrary: c)
  case Nil
  then have "main_cost (mpc c) = 0" and "sum_list (map call_cost (todo c)) = 0"
    by (simp_all add: steps_left_def)
  then have "mpc c = M_idle" and "todo c = []"
    by (auto simp: main_cost_def split: mpc.splits) (cases "todo c"; cases "hd (todo c)"; auto)+
  with Nil show ?case by (simp add: finished_def)
next
  case (Cons b sch)
  have inv: "buffer_inv W n (sched b c)"
    using Cons.prems(1) by (rule buffer_inv_sched)
  have "steps_left (sched b c) \<le> length sch"
  proof (cases "finished c")
    case True
    then show ?thesis using sched_rests [OF Cons.prems(1), of b] by simp
  next
    case False
    then show ?thesis using sched_less [OF Cons.prems(1), of b] Cons.prems(2) by simp
  qed
  with inv show ?case using Cons.IH [of "sched b c"] by simp
qed

lemma ends_with_close_append: "list_all open_call pre \<Longrightarrow> ends_with_close (pre @ [Close])"
  by (induction pre rule: ends_with_close.induct) simp_all

lemma writes_of_append: "writes_of (a @ b) = writes_of a @ writes_of b"
  by (induction a rule: writes_of.induct) simp_all

lemma cost_open_calls: "list_all open_call pre \<Longrightarrow> sum_list (map call_cost pre) \<le> 8 * length pre"
  by (induction pre rule: ends_with_close.induct) simp_all

lemma new_buffer_inv:
  "list_all open_call pre \<Longrightarrow>
   buffer_inv (writes_of pre) (length pre + 1) (new_buffer cl (pre @ [Close]))"
  by (simp add: buffer_inv_def open_inv_def queue_ok_def open_pos_def new_buffer_def
        empty_queue_def alive_def inflight_def held_def pending_def calls_left_def
        ends_with_close_append writes_of_append)

lemma new_buffer_steps:
  "list_all open_call pre \<Longrightarrow> steps_left (new_buffer cl (pre @ [Close])) \<le> 8 * length pre + 17"
  using cost_open_calls [of pre]
  by (simp add: steps_left_def new_buffer_def empty_queue_def main_cost_def worker_cost_def)

lemma all_None: "list_all (\<lambda>r. r = None) rs \<Longrightarrow> rs = replicate (length rs) None"
  by (induction rs) simp_all

lemma open_events_at_sink:
  "list_all open_event T \<Longrightarrow> filter at_sink T = map SinkWrite (sink_writes T)"
  by (induction T rule: sink_writes.induct) simp_all

lemma open_events_no_cleanup: "list_all open_event T \<Longrightarrow> count_list T Cleanup = 0"
  by (induction T rule: sink_writes.induct) simp_all

text \<open>What \<^verbatim>\<open>close\<close> leaves behind, under every schedule.\<close>

lemma close_completes:
  assumes "list_all open_call pre" and "8 * length pre + 17 \<le> length sch"
  shows "\<exists>T X. log (run_threads sch (new_buffer cl (pre @ [Close]))) = T @ close_seq X cl
           \<and> (X = [] \<or> X = [SinkWrite []])
           \<and> list_all open_event T \<and> puts T = writes_of pre \<and> sink_writes T = writes_of pre
           \<and> mpc (run_threads sch (new_buffer cl (pre @ [Close]))) = M_idle
           \<and> todo (run_threads sch (new_buffer cl (pre @ [Close]))) = []
           \<and> u_closed (run_threads sch (new_buffer cl (pre @ [Close])))
           \<and> u_queue (run_threads sch (new_buffer cl (pre @ [Close]))) = None
           \<and> thread (run_threads sch (new_buffer cl (pre @ [Close]))) = W_exit
           \<and> results (run_threads sch (new_buffer cl (pre @ [Close])))
               = replicate (length pre + 1) None"
proof -
  let ?c = "run_threads sch (new_buffer cl (pre @ [Close]))"
  have "steps_left (new_buffer cl (pre @ [Close])) \<le> length sch"
    using new_buffer_steps [OF assms(1), of cl] assms(2) by simp
  then have fin: "finished ?c" and inv: "buffer_inv (writes_of pre) (length pre + 1) ?c"
    using run_threads_finishes [OF new_buffer_inv [OF assms(1), of cl], of sch] by simp_all
  have cl: "u_cleanup ?c = cl"
    by (simp add: run_threads_cleanup new_buffer_def)
  from inv fin obtain T where T: "list_all open_event T" "puts T = writes_of pre"
      "sink_writes T = writes_of pre" and c: "closing T (length pre + 1) ?c"
    unfolding buffer_inv_def using open_inv_not_finished by blast
  from fin have idle: "mpc ?c = M_idle" "todo ?c = []"
    by (simp_all add: finished_def)
  from c idle cl have st: "u_closed ?c" "u_queue ?c = None" "thread ?c = W_exit"
      "list_all (\<lambda>r. r = None) (results ?c)" "length (results ?c) = length pre + 1"
      and lg: "log_is ?c T ([ThreadJoin, SinkFlush] @ (if cl then [Cleanup] else []))"
    by (simp_all add: closing_def calls_left_def)
  from lg have "log ?c = T @ close_seq [] cl \<or> log ?c = T @ close_seq [SinkWrite []] cl"
    by (simp add: log_is_def close_seq_def)
  moreover have "results ?c = replicate (length pre + 1) None"
    using all_None [OF st(4)] st(5) by simp
  ultimately show ?thesis
    using T idle st by blast
qed

subsection \<open>write\<close>

lemma worker_keeps_queue:
  "worker_step c = Some c' \<Longrightarrow> (u_queue c' = None) = (u_queue c = None)"
  by (cases "thread c")
     (auto simp: worker_step_def split: option.splits list.splits sum.splits if_splits)

lemma worker_steps_keeps:
  "mpc (worker_steps n c) = mpc c \<and> todo (worker_steps n c) = todo c
   \<and> results (worker_steps n c) = results c \<and> u_closed (worker_steps n c) = u_closed c
   \<and> (u_queue (worker_steps n c) = None) = (u_queue c = None)"
proof (induction n arbitrary: c)
  case 0
  show ?case by simp
next
  case (Suc n)
  show ?case
  proof (cases "worker_step c")
    case None
    then show ?thesis by simp
  next
    case (Some c')
    then show ?thesis
      using Suc [of c'] worker_keeps [OF Some] worker_keeps_queue [OF Some] by simp
  qed
qed

text \<open>
  Claim C5.  Let the main thread call \<^verbatim>\<open>write(d)\<close>, and let the worker run any number of steps
  before each of the three steps that the call takes.  The call never waits.  While the buffer
  is open (\<^verbatim>\<open>_closed\<close> is false, the queue is there) its only effect is that \<open>d\<close> is put into
  the queue, at the end and counted as an unfinished task: the first two steps log nothing, the
  third logs the \<^verbatim>\<open>put\<close> and nothing is written to the sink by the call; it returns normally.
  When \<^verbatim>\<open>_closed\<close> is set, its only effect is that \<open>d\<close> is written to the underlying sink, by
  the call itself and before it returns; the queue is not touched.
\<close>

theorem write_enqueues_or_writes_through:
  assumes "mpc c = M_idle" and "todo c = Write d # cs"
  shows "(\<not> u_closed c \<and> u_queue c \<noteq> None \<longrightarrow>
            main3 i j k c = Some
              (let c1 = (worker_steps i c)\<lparr>mpc := M38 d, todo := cs\<rparr>;
                   c2 = (worker_steps j c1)\<lparr>mpc := M41 d\<rparr>;
                   c3 = worker_steps k c2
               in c3\<lparr>u_queue := map_option (q_put d) (u_queue c3), log := log c3 @ [QueuePut d],
                     mpc := M_idle, results := results c @ [None]\<rparr>))
       \<and> (u_closed c \<longrightarrow>
            main3 i j k c = Some
              (let c1 = (worker_steps i c)\<lparr>mpc := M38 d, todo := cs\<rparr>;
                   c2 = (worker_steps j c1)\<lparr>mpc := M39 d\<rparr>;
                   c3 = worker_steps k c2
               in c3\<lparr>log := log c3 @ [SinkWrite d], mpc := M_idle,
                     results := results c @ [None]\<rparr>))"
proof -
  let ?w1 = "worker_steps i c"
  let ?c1 = "?w1\<lparr>mpc := M38 d, todo := cs\<rparr>"
  let ?w2 = "worker_steps j ?c1"
  have m1: "main_step ?w1 = Some ?c1"
    using worker_steps_keeps [of i c] assms by (simp add: main_step_def)
  have k2: "mpc ?w2 = M38 d" "u_closed ?w2 = u_closed c" "results ?w2 = results c"
      "(u_queue ?w2 = None) = (u_queue c = None)"
    using worker_steps_keeps [of j ?c1] worker_steps_keeps [of i c] by simp_all
  have m2: "main_step ?w2 = Some (?w2\<lparr>mpc := (if u_closed c then M39 d else M41 d)\<rparr>)"
    using k2 by (simp add: main_step_def)
  show ?thesis
  proof (intro conjI impI)
    assume o: "\<not> u_closed c \<and> u_queue c \<noteq> None"
    let ?c2 = "?w2\<lparr>mpc := M41 d\<rparr>"
    let ?w3 = "worker_steps k ?c2"
    have k3: "mpc ?w3 = M41 d" "results ?w3 = results c" "u_queue ?w3 \<noteq> None"
      using worker_steps_keeps [of k ?c2] k2 o by simp_all
    then obtain q where q: "u_queue ?w3 = Some q" by auto
    have "main_step ?w3 =
            Some (?w3\<lparr>u_queue := map_option (q_put d) (u_queue ?w3),
                       log := log ?w3 @ [QueuePut d], mpc := M_idle,
                       results := results c @ [None]\<rparr>)"
      using k3 q by (simp add: main_step_def finish_def)
    then show "main3 i j k c = Some
              (let c1 = (worker_steps i c)\<lparr>mpc := M38 d, todo := cs\<rparr>;
                   c2 = (worker_steps j c1)\<lparr>mpc := M41 d\<rparr>;
                   c3 = worker_steps k c2
               in c3\<lparr>u_queue := map_option (q_put d) (u_queue c3), log := log c3 @ [QueuePut d],
                     mpc := M_idle, results := results c @ [None]\<rparr>)"
      using m1 m2 o by (simp add: main3_def Let_def)
  next
    assume o: "u_closed c"
    let ?c2 = "?w2\<lparr>mpc := M39 d\<rparr>"
    let ?w3 = "worker_steps k ?c2"
    have k3: "mpc ?w3 = M39 d" "results ?w3 = results c"
      using worker_steps_keeps [of k ?c2] k2 by simp_all
    have "main_step ?w3 =
            Some (?w3\<lparr>log := log ?w3 @ [SinkWrite d], mpc := M_idle,
                       results := results c @ [None]\<rparr>)"
      using k3 by (simp add: main_step_def finish_def)
    then show "main3 i j k c = Some
              (let c1 = (worker_steps i c)\<lparr>mpc := M38 d, todo := cs\<rparr>;
                   c2 = (worker_steps j c1)\<lparr>mpc := M39 d\<rparr>;
                   c3 = worker_steps k c2
               in c3\<lparr>log := log c3 @ [SinkWrite d], mpc := M_idle,
                     results := results c @ [None]\<rparr>)"
      using m1 m2 o by (simp add: main3_def Let_def)
  qed
qed

theorem write_enqueues_or_writes_through_witness:
  "mpc (new_buffer True [Write [1], Close]) = M_idle
   \<and> todo (new_buffer True [Write [1], Close]) = [Write [1], Close]
   \<and> main3 1 1 1 (new_buffer True [Write [1], Close]) =
       Some \<lparr>u_queue = Some \<lparr>items = [[1]], unfinished_tasks = 1\<rparr>, u_closed = False,
             u_cleanup = True, thread = W71_get, log = [QueuePut [1]], mpc = M_idle,
             todo = [Close], results = [None]\<rparr>
   \<and> u_closed closed_buffer
   \<and> main3 1 1 1 (then_calls [Write [3]] closed_buffer) =
       Some (closed_buffer\<lparr>log := log closed_buffer @ [SinkWrite [3]],
                            results := [None, None, None]\<rparr>)"
proof -
  have w: "\<And>c. worker_steps 1 c = (case worker_step c of None \<Rightarrow> c | Some c' \<Rightarrow> c')"
    by (simp split: option.splits)
  have a: "main3 1 1 1 (new_buffer True [Write [1], Close]) =
       Some \<lparr>u_queue = Some \<lparr>items = [[1]], unfinished_tasks = 1\<rparr>, u_closed = False,
             u_cleanup = True, thread = W71_get, log = [QueuePut [1]], mpc = M_idle,
             todo = [Close], results = [None]\<rparr>"
    by (simp add: main3_def w worker_step_def main_step_def finish_def q_put_def new_buffer_def
          empty_queue_def)
  have b: "main3 1 1 1 (then_calls [Write [3]] closed_buffer) =
       Some (closed_buffer\<lparr>log := log closed_buffer @ [SinkWrite [3]],
                            results := [None, None, None]\<rparr>)"
    by (simp add: main3_def w worker_step_def main_step_def finish_def then_calls_def
          closed_buffer_def)
  show ?thesis
    using write_enqueues_or_writes_through [of "new_buffer True [Write [1], Close]" "[1]" "[Close]" 1 1 1]
      write_enqueues_or_writes_through [of "then_calls [Write [3]] closed_buffer" "[3]" "[]" 1 1 1]
      a b
    by (simp add: new_buffer_def closed_buffer_def)
qed

subsection \<open>close\<close>

text \<open>
  Claim C4.  Let the main thread make any calls of \<^verbatim>\<open>write\<close> and \<^verbatim>\<open>flush\<close> on a new buffer and
  then call \<^verbatim>\<open>close\<close>, and let the two threads be scheduled in any way, for at least
  \<open>8 * length pre + 17\<close> steps.  Then \<^verbatim>\<open>close\<close> has returned, no call has raised and the worker
  has ended, and the log is \<open>T @ close_seq X cleanup\<close>: first the events \<open>T\<close> before \<^verbatim>\<open>close\<close>
  has waited for the queue, in which every chunk of a \<^verbatim>\<open>write\<close> was put into the queue once
  and written to the sink once, in the order of the calls; then the return of the queue's
  \<^verbatim>\<open>join\<close>, the assignment \<^verbatim>\<open>_closed = True\<close>, the \<^verbatim>\<open>put\<close> of the empty wakeup chunk, the
  return of the worker's \<^verbatim>\<open>join\<close>, the \<^verbatim>\<open>flush\<close> of the sink and, when a callback was given,
  the callback.  Between the wakeup chunk and the end of the worker, the worker may write the
  empty chunk to the sink (\<open>X\<close>); the sink sees nothing else than the chunks, this, the
  \<^verbatim>\<open>flush\<close> and the callback.
\<close>

theorem close_flushes_then_shuts_down:
  assumes "list_all open_call pre" and "8 * length pre + 17 \<le> length sch"
  shows "let c = run_threads sch (new_buffer cleanup (pre @ [Close])) in
         \<exists>T X. log c = T @ close_seq X cleanup
           \<and> (X = [] \<or> X = [SinkWrite []])
           \<and> list_all open_event T \<and> puts T = writes_of pre \<and> sink_writes T = writes_of pre
           \<and> filter at_sink (log c) =
               map SinkWrite (writes_of pre) @ X @ SinkFlush # (if cleanup then [Cleanup] else [])
           \<and> finished c \<and> u_closed c \<and> thread c = W_exit
           \<and> results c = replicate (length pre + 1) None"
proof -
  let ?c = "run_threads sch (new_buffer cleanup (pre @ [Close]))"
  from close_completes [OF assms, of cleanup]
  obtain T X where l: "log ?c = T @ close_seq X cleanup" and X: "X = [] \<or> X = [SinkWrite []]"
    and T: "list_all open_event T" "puts T = writes_of pre" "sink_writes T = writes_of pre"
    and st: "mpc ?c = M_idle" "todo ?c = []" "u_closed ?c" "thread ?c = W_exit"
      "results ?c = replicate (length pre + 1) None"
    by blast
  have "filter at_sink (log ?c) =
          map SinkWrite (writes_of pre) @ X @ SinkFlush # (if cleanup then [Cleanup] else [])"
    using X open_events_at_sink [OF T(1)] T(3) by (auto simp: l close_seq_def)
  moreover have "finished ?c"
    using st by (simp add: finished_def)
  ultimately show ?thesis
    unfolding Let_def using l X T st by blast
qed

theorem close_flushes_then_shuts_down_witness:
  "list_all open_call demo_prog \<and> 8 * length demo_prog + 17 \<le> length (replicate 41 True)
   \<and> log (run_threads (replicate 41 True) (new_buffer True (demo_prog @ [Close]))) =
       [QueuePut [1], SinkWrite [1], QueueJoin, QueuePut [2], SinkWrite [2]] @ close_seq [] True
   \<and> log (run_threads (replicate 41 False) (new_buffer True (demo_prog @ [Close]))) =
       [QueuePut [1], SinkWrite [1], QueueJoin, QueuePut [2], SinkWrite [2]]
       @ close_seq [SinkWrite []] True"
proof -
  have a: "log (run_threads (replicate 41 True) (new_buffer True (demo_prog @ [Close]))) =
       [QueuePut [1], SinkWrite [1], QueueJoin, QueuePut [2], SinkWrite [2]] @ close_seq [] True"
    by code_simp
  have b: "log (run_threads (replicate 41 False) (new_buffer True (demo_prog @ [Close]))) =
       [QueuePut [1], SinkWrite [1], QueueJoin, QueuePut [2], SinkWrite [2]]
       @ close_seq [SinkWrite []] True"
    by code_simp
  have p: "list_all open_call demo_prog" "8 * length demo_prog + 17 \<le> length (replicate 41 True)"
    by (simp_all add: demo_prog_def)
  show ?thesis
    using close_flushes_then_shuts_down [OF p, of True] a b p by simp
qed

subsection \<open>After close\<close>

lemma rests_run: "worker_step c = None \<Longrightarrow> main_step c = None \<Longrightarrow> run_threads sch c = c"
  by (induction sch) (simp_all add: sched_def)

lemma closed_rests:
  "mpc c = M_idle \<Longrightarrow> todo c = [] \<Longrightarrow> thread c = W_exit \<Longrightarrow> run_threads sch c = c"
  by (rule rests_run) (simp_all add: worker_step_def main_step_def)

lemma closed_close:
  assumes "u_closed c" and "mpc c = M_idle" and "thread c = W_exit" and "todo c = x # xs"
    and "x = Close \<or> x = Del"
  shows "sched b2 (sched b1 c) = c\<lparr>todo := xs, results := results c @ [None]\<rparr>"
  using assms
  by (cases c) (auto simp: sched_def worker_step_def main_step_def finish_def)

lemma closed_closes:
  assumes "u_closed c" and "mpc c = M_idle" and "thread c = W_exit" and "todo c = xs"
    and "list_all (\<lambda>x. x = Close \<or> x = Del) xs" and "2 * length xs \<le> length sch"
  shows "run_threads sch c = c\<lparr>todo := [], results := results c @ replicate (length xs) None\<rparr>"
  using assms
proof (induction xs arbitrary: c sch)
  case Nil
  then show ?case
    using closed_rests [of c sch] by (cases c) simp
next
  case (Cons x xs)
  from Cons.prems(6) obtain b1 b2 sch' where sch: "sch = b1 # b2 # sch'"
    by (cases sch; cases "tl sch") auto
  let ?c1 = "c\<lparr>todo := xs, results := results c @ [None]\<rparr>"
  have s: "sched b2 (sched b1 c) = ?c1"
    using closed_close [of c x xs b2 b1] Cons.prems by simp
  have "run_threads sch' ?c1 =
          ?c1\<lparr>todo := [], results := results ?c1 @ replicate (length xs) None\<rparr>"
    using Cons.IH [of ?c1 sch'] Cons.prems sch by simp
  then show ?case
    using s sch by (simp add: replicate_app_Cons_same)
qed

lemma closed_then_closes:
  assumes "u_closed c" and "mpc c = M_idle" and "thread c = W_exit" and "todo c = []"
    and "list_all (\<lambda>x. x = Close \<or> x = Del) xs" and "2 * length xs \<le> length sch"
  shows "run_threads sch (then_calls xs c) =
           c\<lparr>results := results c @ replicate (length xs) None\<rparr>"
proof -
  have "run_threads sch (then_calls xs c) =
          (then_calls xs c)\<lparr>todo := [],
             results := results (then_calls xs c) @ replicate (length xs) None\<rparr>"
    using assms by (intro closed_closes) (simp_all add: then_calls_def)
  then show ?thesis
    using assms(4) by (cases c) (simp add: then_calls_def)
qed

lemma closed_flush:
  assumes "mpc c = M_idle" and "todo c = []" and "thread c = W_exit" and "u_queue c = None"
    and "2 \<le> length sch"
  shows "run_threads sch (then_calls [Flush] c) = c\<lparr>results := results c @ [Some AttributeError]\<rparr>"
proof -
  from assms(5) obtain b1 b2 sch' where sch: "sch = b1 # b2 # sch'"
    by (cases sch; cases "tl sch") auto
  have s: "sched b2 (sched b1 (then_calls [Flush] c)) =
             c\<lparr>results := results c @ [Some AttributeError]\<rparr>"
    using assms(1-4)
    by (cases c) (auto simp: then_calls_def sched_def worker_step_def main_step_def finish_def)
  show ?thesis
    using closed_rests [of "c\<lparr>results := results c @ [Some AttributeError]\<rparr>" sch'] assms(1-3)
    by (simp add: sch s)
qed

lemma closed_write:
  assumes "mpc c = M_idle" and "todo c = []" and "thread c = W_exit" and "u_closed c"
    and "3 \<le> length sch"
  shows "run_threads sch (then_calls [Write d] c) =
           c\<lparr>log := log c @ [SinkWrite d], results := results c @ [None]\<rparr>"
proof -
  from assms(5) obtain b1 b2 b3 sch' where sch: "sch = b1 # b2 # b3 # sch'"
    by (cases sch; cases "tl sch"; cases "tl (tl sch)") auto
  have s: "sched b3 (sched b2 (sched b1 (then_calls [Write d] c))) =
             c\<lparr>log := log c @ [SinkWrite d], results := results c @ [None]\<rparr>"
    using assms(1-4)
    by (cases c) (auto simp: then_calls_def sched_def worker_step_def main_step_def finish_def)
  show ?thesis
    using closed_rests [of "c\<lparr>log := log c @ [SinkWrite d], results := results c @ [None]\<rparr>" sch']
      assms(1-3)
    by (simp add: sch s)
qed

lemma sink_writes_close_seq:
  "X = [] \<or> X = [SinkWrite []] \<Longrightarrow>
   filter (\<lambda>d. d \<noteq> []) (sink_writes (T @ close_seq X cl)) = filter (\<lambda>d. d \<noteq> []) (sink_writes T)"
  by (auto simp: sink_writes_append close_seq_def)

lemma count_cleanup_close_seq:
  "list_all open_event T \<Longrightarrow> X = [] \<or> X = [SinkWrite []] \<Longrightarrow>
   count_list (T @ close_seq X cl) Cleanup = (if cl then 1 else 0)"
  using open_events_no_cleanup [of T] by (auto simp: close_seq_def)

text \<open>
  Claim C6.  Let \<^verbatim>\<open>close\<close> have returned, after any calls of \<^verbatim>\<open>write\<close> and \<^verbatim>\<open>flush\<close> and under
  any schedule, and let the caller then make any number of further calls of \<^verbatim>\<open>close\<close>, directly
  or through the finaliser \<^verbatim>\<open>__del__\<close>, again under any schedule.  Each of these calls returns
  normally, and the buffer is left exactly as the first \<^verbatim>\<open>close\<close> left it: nothing is added to
  the log, so no chunk is written again, the sink is not flushed again and the callback is not
  called again.  The sink has seen the chunks as they were written, once each, and the callback
  has run once when one was given and never otherwise.
\<close>

theorem close_again_is_noop:
  assumes "list_all open_call pre" and "8 * length pre + 17 \<le> length sch"
    and "list_all (\<lambda>x. x = Close \<or> x = Del) xs" and "2 * length xs \<le> length sch'"
  shows "let c = run_threads sch (new_buffer cleanup (pre @ [Close]));
             c' = run_threads sch' (then_calls xs c)
         in c' = c\<lparr>results := results c @ replicate (length xs) None\<rparr>
          \<and> log c' = log c
          \<and> results c' = replicate (length pre + 1 + length xs) None
          \<and> count_list (log c') Cleanup = (if cleanup then 1 else 0)
          \<and> filter (\<lambda>d. d \<noteq> []) (sink_writes (log c')) = filter (\<lambda>d. d \<noteq> []) (writes_of pre)"
proof -
  let ?c = "run_threads sch (new_buffer cleanup (pre @ [Close]))"
  let ?c' = "run_threads sch' (then_calls xs ?c)"
  from close_completes [OF assms(1,2), of cleanup]
  obtain T X where l: "log ?c = T @ close_seq X cleanup" and X: "X = [] \<or> X = [SinkWrite []]"
    and T: "list_all open_event T" "sink_writes T = writes_of pre"
    and st: "mpc ?c = M_idle" "todo ?c = []" "u_closed ?c" "thread ?c = W_exit"
      "results ?c = replicate (length pre + 1) None"
    by blast
  have e: "?c' = ?c\<lparr>results := results ?c @ replicate (length xs) None\<rparr>"
    using closed_then_closes [OF st(3,1,4,2) assms(3,4)] .
  have r: "results ?c' = replicate (length pre + 1 + length xs) None"
    by (simp add: e st(5) replicate_add [symmetric] del: replicate_add)
  have g: "log ?c' = log ?c"
    by (simp add: e)
  have n: "count_list (log ?c') Cleanup = (if cleanup then 1 else 0)"
    unfolding g l using count_cleanup_close_seq [OF T(1) X] by simp
  have w: "filter (\<lambda>d. d \<noteq> []) (sink_writes (log ?c')) = filter (\<lambda>d. d \<noteq> []) (writes_of pre)"
    unfolding g l using sink_writes_close_seq [OF X, of T cleanup] T(2) by simp
  show ?thesis
    unfolding Let_def using e g r n w by blast
qed

theorem close_again_is_noop_witness:
  "list_all open_call [Write [1]] \<and> 8 * length [Write [1]] + 17 \<le> length (replicate 25 True)
   \<and> list_all (\<lambda>x. x = Close \<or> x = Del) [Close, Del]
   \<and> 2 * length [Close, Del] \<le> length [False, True, False, True]
   \<and> run_threads (replicate 25 True) (new_buffer True ([Write [1]] @ [Close])) = closed_buffer
   \<and> run_threads [False, True, False, True] (then_calls [Close, Del] closed_buffer)
       = closed_buffer\<lparr>results := [None, None, None, None]\<rparr>
   \<and> count_list (log closed_buffer) Cleanup = 1"
proof -
  have a: "run_threads (replicate 25 True) (new_buffer True ([Write [1]] @ [Close])) = closed_buffer"
    by code_simp
  have p: "list_all open_call [Write [1]]" "8 * length [Write [1]] + 17 \<le> length (replicate 25 True)"
      "list_all (\<lambda>x. x = Close \<or> x = Del) [Close, Del]"
      "2 * length [Close, Del] \<le> length [False, True, False, True]"
    by simp_all
  have r: "results closed_buffer = [None, None]"
    by (simp add: closed_buffer_def)
  have c: "count_list (log closed_buffer) Cleanup = 1"
    by (simp add: closed_buffer_def)
  show ?thesis
    using close_again_is_noop [OF p, of True] p c
    unfolding Let_def a by (simp add: r)
qed

text \<open>
  Claim C10.  Let \<^verbatim>\<open>close\<close> have returned, after any calls of \<^verbatim>\<open>write\<close> and \<^verbatim>\<open>flush\<close> and
  under any schedule.  Then \<^verbatim>\<open>_queue\<close> is \<^verbatim>\<open>None\<close> and \<^verbatim>\<open>_closed\<close> is set.  A call of \<^verbatim>\<open>flush\<close>
  made then raises (\<^verbatim>\<open>AttributeError\<close>: \<^verbatim>\<open>None\<close> has no \<^verbatim>\<open>join\<close>) and changes nothing else,
  while a call of \<^verbatim>\<open>write\<close> made then returns normally, having written its chunk to the sink.
\<close>

theorem flush_after_close_raises:
  assumes "list_all open_call pre" and "8 * length pre + 17 \<le> length sch"
    and "2 \<le> length sch2" and "3 \<le> length sch3"
  shows "let c = run_threads sch (new_buffer cleanup (pre @ [Close])) in
           u_queue c = None \<and> u_closed c \<and> finished c
         \<and> run_threads sch2 (then_calls [Flush] c)
             = c\<lparr>results := results c @ [Some AttributeError]\<rparr>
         \<and> run_threads sch3 (then_calls [Write d] c)
             = c\<lparr>log := log c @ [SinkWrite d], results := results c @ [None]\<rparr>"
proof -
  let ?c = "run_threads sch (new_buffer cleanup (pre @ [Close]))"
  from close_completes [OF assms(1,2), of cleanup]
  have st: "mpc ?c = M_idle" "todo ?c = []" "u_closed ?c" "u_queue ?c = None" "thread ?c = W_exit"
    by blast+
  have f: "finished ?c"
    using st by (simp add: finished_def)
  show ?thesis
    unfolding Let_def
    using st f closed_flush [OF st(1,2,5,4) assms(3)] closed_write [OF st(1,2,5,3) assms(4), of d]
    by simp
qed

theorem flush_after_close_raises_witness:
  "list_all open_call [Write [1]] \<and> 8 * length [Write [1]] + 17 \<le> length (replicate 25 True)
   \<and> run_threads (replicate 25 True) (new_buffer True ([Write [1]] @ [Close])) = closed_buffer
   \<and> u_queue closed_buffer = None
   \<and> run_threads [True, False] (then_calls [Flush] closed_buffer)
       = closed_buffer\<lparr>results := [None, None, Some AttributeError]\<rparr>
   \<and> run_threads [False, True, False] (then_calls [Write [3]] closed_buffer)
       = closed_buffer\<lparr>log := log closed_buffer @ [SinkWrite [3]],
                         results := [None, None, None]\<rparr>"
proof -
  have a: "run_threads (replicate 25 True) (new_buffer True ([Write [1]] @ [Close])) = closed_buffer"
    by code_simp
  have p: "list_all open_call [Write [1]]" "8 * length [Write [1]] + 17 \<le> length (replicate 25 True)"
      "2 \<le> length [True, False]" "3 \<le> length [False, True, False]"
    by simp_all
  have r: "results closed_buffer = [None, None]" "u_queue closed_buffer = None"
    by (simp_all add: closed_buffer_def)
  show ?thesis
    using flush_after_close_raises [OF p, of True "[3]"] p(1,2)
    unfolding Let_def a by (simp add: r)
qed

end
